theory Spec2Isabelle
  imports Main "HOL-Library.Char_ord" "HOL-Library.List_Lexorder" "HOL-Library.Multiset"
begin

section \<open>Data model\<close>

text \<open>
  The values that \<^verbatim>\<open>json.load\<close> returns and \<^verbatim>\<open>json.dump\<close> accepts. A Python
  \<^verbatim>\<open>dict\<close> keeps insertion order, so an object is an association list (its keys are
  distinct, see \<open>wf_json\<close>); Python's \<^verbatim>\<open>None\<close> is \<open>JNull\<close>. Floating-point numbers are
  not modelled: the generator never writes one.
\<close>

datatype json =
    JNull
  | JBool bool
  | JInt int
  | JStr string
  | JList "json list"
  | JObj "(string \<times> json) list"

text \<open>
  Every way a run can end without a result. The first seven are the \<^verbatim>\<open>sys.exit(1)\<close>
  branches of the script, named as the specification names them; the last four are the
  Python exceptions that the script lets escape. \<open>RemovedKeyError\<close> carries the missing
  keys the message lists; \<open>RemovedKeyValues\<close> is the same branch when a key of the
  existing document is not a string, so that the values listed are JSON values.
\<close>

datatype error =
    NoInputError
  | SchemaError string
  | DuplicateKeyError string string
  | EmptySourceError
  | RemovedKeyError "string list"
  | RemovedKeyValues "json list"
  | ReorderedKeyError
  | AttributeError
  | KeyError
  | TypeError
  | JSONDecodeError

text \<open>
  One \<^verbatim>\<open>*.csv\<close> file as \<^verbatim>\<open>csv.DictReader\<close> sees it: its name, the header row
  (\<open>None\<close> for a file without any row) and the rows that \<^verbatim>\<open>csv.reader\<close> yields after
  the header.
\<close>

record csv_file =
  file_name :: string
  fieldnames :: "string list option"
  rows :: "string list list"

type_synonym entry = "(string \<times> string) list"

section \<open>Python strings and dictionaries\<close>

text \<open>
  A character is a code point below 256. \<^verbatim>\<open>str.strip()\<close> removes the characters that
  Python counts as whitespace; below 256 these are the code points 9 to 13, 28 to 32,
  133 (U+0085) and 160 (U+00A0).
\<close>

definition isspace :: "char \<Rightarrow> bool" where
  "isspace c = ((of_char c :: nat) \<in> {9, 10, 11, 12, 13, 28, 29, 30, 31, 32, 133, 160})"

definition strip :: "string \<Rightarrow> string" where
  "strip s = rev (dropWhile isspace (rev (dropWhile isspace s)))"

text \<open>\<^verbatim>\<open>d[k] = v\<close>: an existing key keeps its place, a new key goes to the end.\<close>

fun dict_set :: "('k \<times> 'v) list \<Rightarrow> 'k \<Rightarrow> 'v \<Rightarrow> ('k \<times> 'v) list" where
  "dict_set [] k v = [(k, v)]"
| "dict_set ((k', v') # d) k v =
     (if k' = k then (k', v) # d else (k', v') # dict_set d k v)"

text \<open>\<^verbatim>\<open>d[k]\<close>: raises \<^verbatim>\<open>KeyError\<close> for a missing key.\<close>

definition getitem :: "(string \<times> 'v) list \<Rightarrow> string \<Rightarrow> error + 'v" where
  "getitem d k = (case map_of d k of None \<Rightarrow> Inl KeyError | Some v \<Rightarrow> Inr v)"

text \<open>\<^verbatim>\<open>x.strip()\<close> where \<open>x\<close> is a string or \<^verbatim>\<open>None\<close>.\<close>

definition py_strip :: "string option \<Rightarrow> error + string" where
  "py_strip x = (case x of None \<Rightarrow> Inl AttributeError | Some s \<Rightarrow> Inr (strip s))"

section \<open>Entry Reader\<close>

definition IGNORED_COLUMNS :: "string set" where
  "IGNORED_COLUMNS = {''comment''}"

text \<open>
  The dictionary \<^verbatim>\<open>csv.DictReader\<close> builds for one row: \<^verbatim>\<open>dict(zip(fieldnames, row))\<close>,
  then \<^verbatim>\<open>None\<close> for every header column the row is too short for. Fields beyond the
  header go under the key \<^verbatim>\<open>None\<close>, which no column name reaches, and are left out.
\<close>

definition DictReader_row :: "string list \<Rightarrow> string list \<Rightarrow> (string \<times> string option) list" where
  "DictReader_row fns raw =
     fold (\<lambda>k d. dict_set d k None) (drop (length raw) fns)
       (fold (\<lambda>(k, v) d. dict_set d k (Some v)) (zip fns raw) [])"

text \<open>\<^verbatim>\<open>{col.strip(): row[col].strip() for col in output_fields}\<close>\<close>

fun build_entry :: "(string \<times> string option) list \<Rightarrow> string list \<Rightarrow> entry \<Rightarrow> error + entry" where
  "build_entry row [] entry = Inr entry"
| "build_entry row (col # cols) entry =
     (case getitem row col of
        Inl e \<Rightarrow> Inl e
      | Inr x \<Rightarrow>
         (case py_strip x of
            Inl e \<Rightarrow> Inl e
          | Inr v \<Rightarrow> build_entry row cols (dict_set entry (strip col) v)))"

text \<open>The state of the loops of \<^verbatim>\<open>read_csv_entries\<close>: \<open>entries\<close> and \<open>seen_keys\<close>.\<close>

type_synonym reader_state = "entry list \<times> string set"

text \<open>\<^verbatim>\<open>row["key"].strip()\<close> for the row that \<^verbatim>\<open>csv.DictReader\<close> makes of \<open>raw\<close>.\<close>

definition row_key :: "string list \<Rightarrow> string list \<Rightarrow> error + string" where
  "row_key fns raw =
     (case getitem (DictReader_row fns raw) ''key'' of Inl e \<Rightarrow> Inl e | Inr x \<Rightarrow> py_strip x)"

text \<open>The body of \<^verbatim>\<open>for row in reader\<close>.\<close>

definition process_row ::
  "string \<Rightarrow> string list \<Rightarrow> string list \<Rightarrow> reader_state \<Rightarrow> string list \<Rightarrow> error + reader_state" where
  "process_row fname fns output_fields st raw =
     (case row_key fns raw of
        Inl e \<Rightarrow> Inl e
      | Inr key \<Rightarrow>
          if key = [] then Inr st
          else if key \<in> snd st then Inl (DuplicateKeyError key fname)
          else (case build_entry (DictReader_row fns raw) output_fields [] of
                  Inl e \<Rightarrow> Inl e
                | Inr entry \<Rightarrow> Inr (fst st @ [entry], insert key (snd st))))"

text \<open>\<^verbatim>\<open>for row in reader\<close>; \<^verbatim>\<open>csv.DictReader\<close> passes over rows without any field.\<close>

fun read_rows ::
  "string \<Rightarrow> string list \<Rightarrow> string list \<Rightarrow> reader_state \<Rightarrow> string list list \<Rightarrow> error + reader_state" where
  "read_rows fname fns output_fields st [] = Inr st"
| "read_rows fname fns output_fields st (raw # raws) =
     (if raw = [] then read_rows fname fns output_fields st raws
      else (case process_row fname fns output_fields st raw of
              Inl e \<Rightarrow> Inl e
            | Inr st' \<Rightarrow> read_rows fname fns output_fields st' raws))"

definition output_fields_of :: "string list \<Rightarrow> string list" where
  "output_fields_of fns = filter (\<lambda>col. strip col \<notin> IGNORED_COLUMNS) fns"

text \<open>\<^verbatim>\<open>for csv_file in csv_files\<close>\<close>

fun read_files :: "reader_state \<Rightarrow> csv_file list \<Rightarrow> error + reader_state" where
  "read_files st [] = Inr st"
| "read_files st (f # fs) =
     (case fieldnames f of
        None \<Rightarrow> Inl (SchemaError (file_name f))
      | Some fns \<Rightarrow>
         if ''key'' \<notin> set fns then Inl (SchemaError (file_name f))
         else (case read_rows (file_name f) fns (output_fields_of fns) st (rows f) of
                 Inl e \<Rightarrow> Inl e
               | Inr st' \<Rightarrow> read_files st' fs))"

text \<open>
  \<open>source_dir\<close> is what \<^verbatim>\<open>source_dir.glob("*.csv")\<close> lists, in the order the file system
  gives; paths in one directory sort by file name.
\<close>

definition read_csv_entries :: "csv_file list \<Rightarrow> error + entry list" where
  "read_csv_entries source_dir =
     (let csv_files = sort_key file_name source_dir in
      if csv_files = [] then Inl NoInputError
      else (case read_files ([], {}) csv_files of
              Inl e \<Rightarrow> Inl e
            | Inr st \<Rightarrow> Inr (fst st)))"

section \<open>Append-Only Validator\<close>

definition validate_append_only :: "string list \<Rightarrow> string list \<Rightarrow> error + unit" where
  "validate_append_only existing_keys new_keys =
     (let missing = set existing_keys - set new_keys in
      if missing \<noteq> {} then Inl (RemovedKeyError (sorted_list_of_set missing))
      else let prefix = take (length existing_keys) new_keys in
           if prefix \<noteq> existing_keys then Inl ReorderedKeyError
           else Inr ())"

section \<open>Python equality and subscripts on JSON values\<close>

text \<open>
  \<^verbatim>\<open>a == b\<close>: \<^verbatim>\<open>True == 1\<close> holds, lists are compared element by element, and two
  dictionaries are equal when they have as many keys and every key of the first has an
  equal value in the second, whatever the order.
\<close>

fun py_eq :: "json \<Rightarrow> json \<Rightarrow> bool" where
  "py_eq JNull b = (b = JNull)"
| "py_eq (JBool x) b =
     (case b of JBool y \<Rightarrow> x = y | JInt j \<Rightarrow> (if x then 1 else 0) = j | _ \<Rightarrow> False)"
| "py_eq (JInt i) b =
     (case b of JBool y \<Rightarrow> i = (if y then 1 else 0) | JInt j \<Rightarrow> i = j | _ \<Rightarrow> False)"
| "py_eq (JStr s) b = (b = JStr s)"
| "py_eq (JList xs) b =
     (case b of JList ys \<Rightarrow> length xs = length ys \<and> list_all2 py_eq xs ys | _ \<Rightarrow> False)"
| "py_eq (JObj d) b =
     (case b of
        JObj d' \<Rightarrow>
          length d = length d' \<and>
          list_all (\<lambda>(k, v). case map_of d' k of None \<Rightarrow> False | Some w \<Rightarrow> py_eq v w) d
      | _ \<Rightarrow> False)"

text \<open>What \<^verbatim>\<open>json.load\<close> can return: the keys of every dictionary are distinct.\<close>

fun wf_json :: "json \<Rightarrow> bool" where
  "wf_json (JList xs) = list_all wf_json xs"
| "wf_json (JObj d) = (distinct (map fst d) \<and> list_all (\<lambda>(k, v). wf_json v) d)"
| "wf_json _ = True"

text \<open>\<^verbatim>\<open>x[k]\<close> for a string \<open>k\<close>: only a dictionary takes a string subscript.\<close>

definition py_getitem :: "json \<Rightarrow> string \<Rightarrow> error + json" where
  "py_getitem x k = (case x of JObj d \<Rightarrow> getitem d k | _ \<Rightarrow> Inl TypeError)"

text \<open>\<^verbatim>\<open>x.get(k)\<close>: \<^verbatim>\<open>None\<close> for a missing key; only a dictionary has the method.\<close>

definition py_get :: "json \<Rightarrow> string \<Rightarrow> error + json" where
  "py_get x k =
     (case x of
        JObj d \<Rightarrow> Inr (case map_of d k of None \<Rightarrow> JNull | Some v \<Rightarrow> v)
      | _ \<Rightarrow> Inl AttributeError)"

text \<open>
  \<^verbatim>\<open>for entry in x\<close>: a list yields its elements, a dictionary its keys, a string its
  characters; nothing else can be iterated.
\<close>

definition py_iter :: "json \<Rightarrow> error + json list" where
  "py_iter x =
     (case x of
        JList xs \<Rightarrow> Inr xs
      | JObj d \<Rightarrow> Inr (map (\<lambda>p. JStr (fst p)) d)
      | JStr s \<Rightarrow> Inr (map (\<lambda>c. JStr [c]) s)
      | _ \<Rightarrow> Inl TypeError)"

text \<open>A list comprehension \<^verbatim>\<open>[f(x) for x in xs]\<close> whose \<open>f\<close> may raise.\<close>

fun traverse :: "('a \<Rightarrow> error + 'b) \<Rightarrow> 'a list \<Rightarrow> error + 'b list" where
  "traverse f [] = Inr []"
| "traverse f (x # xs) =
     (case f x of
        Inl e \<Rightarrow> Inl e
      | Inr y \<Rightarrow> (case traverse f xs of Inl e \<Rightarrow> Inl e | Inr ys \<Rightarrow> Inr (y # ys)))"

text \<open>
  \<^verbatim>\<open>validate_append_only\<close> is declared on \<^verbatim>\<open>list[str]\<close>, and the keys of the CSV are
  strings, but a key of the existing document is whatever \<^verbatim>\<open>json.load\<close> returned. The
  next definitions say what the body of \<^verbatim>\<open>validate_append_only\<close> does when some
  existing key is not a string. \<^verbatim>\<open>set(existing_keys)\<close> raises \<^verbatim>\<open>TypeError\<close> for a list or a
  dictionary; otherwise the set keeps, of equal values, the one met first. A value that
  is not a string equals no CSV key, so it is among the missing keys, and the function
  leaves through the removed-keys branch, where \<^verbatim>\<open>sorted(missing)\<close> raises \<^verbatim>\<open>TypeError\<close>
  unless the missing keys can be compared with each other.
\<close>

definition as_str :: "json \<Rightarrow> string option" where
  "as_str k = (case k of JStr s \<Rightarrow> Some s | _ \<Rightarrow> None)"

definition hashable :: "json \<Rightarrow> bool" where
  "hashable k = (case k of JList xs \<Rightarrow> False | JObj d \<Rightarrow> False | _ \<Rightarrow> True)"

fun py_set :: "json list \<Rightarrow> json list \<Rightarrow> json list" where
  "py_set acc [] = acc"
| "py_set acc (k # ks) = py_set (if list_ex (\<lambda>a. py_eq a k) acc then acc else acc @ [k]) ks"

definition is_string :: "json \<Rightarrow> bool" where
  "is_string k = (case k of JStr s \<Rightarrow> True | _ \<Rightarrow> False)"

definition is_number :: "json \<Rightarrow> bool" where
  "is_number k = (case k of JBool b \<Rightarrow> True | JInt i \<Rightarrow> True | _ \<Rightarrow> False)"

definition string_of :: "json \<Rightarrow> string" where
  "string_of k = (case k of JStr s \<Rightarrow> s | _ \<Rightarrow> [])"

definition number_of :: "json \<Rightarrow> int" where
  "number_of k = (case k of JBool b \<Rightarrow> (if b then 1 else 0) | JInt i \<Rightarrow> i | _ \<Rightarrow> 0)"

text \<open>
  \<^verbatim>\<open>sorted(xs)\<close> for pairwise unequal values: strings compare with strings and numbers
  with numbers; any other comparison raises \<^verbatim>\<open>TypeError\<close>, and a list of at most one
  value needs no comparison.
\<close>

definition py_sorted :: "json list \<Rightarrow> error + json list" where
  "py_sorted xs =
     (if length xs \<le> 1 then Inr xs
      else if list_all is_string xs then Inr (sort_key string_of xs)
      else if list_all is_number xs then Inr (sort_key number_of xs)
      else Inl TypeError)"

definition validate_append_only_untyped :: "json list \<Rightarrow> string list \<Rightarrow> error + unit" where
  "validate_append_only_untyped existing_keys new_keys =
     (if \<not> list_all hashable existing_keys then Inl TypeError
      else let missing = filter (\<lambda>k. \<not> list_ex (\<lambda>n. py_eq k (JStr n)) new_keys)
                           (py_set [] existing_keys) in
           if missing \<noteq> []
           then (case py_sorted missing of
                   Inl e \<Rightarrow> Inl e
                 | Inr ms \<Rightarrow> Inl (RemovedKeyValues ms))
           else Inl ReorderedKeyError)"

section \<open>Mapping Store Reader and Mapping Writer\<close>

text \<open>
  The output path holds no file (\<open>None\<close>), text that is not JSON, or a document. The
  text that \<^verbatim>\<open>json.dump\<close> writes is read back by \<^verbatim>\<open>json.load\<close> as the value written,
  so a document stands for its text.
\<close>

datatype file_content = Unparsable | Doc json

definition read_existing_json :: "file_content option \<Rightarrow> error + json" where
  "read_existing_json path =
     (case path of
        None \<Rightarrow> Inr JNull
      | Some Unparsable \<Rightarrow> Inl JSONDecodeError
      | Some (Doc j) \<Rightarrow> Inr j)"

definition write_json :: "json \<Rightarrow> file_content option" where
  "write_json obj = Some (Doc obj)"

text \<open>
  What reaches the disk while \<^verbatim>\<open>write_json\<close> runs: \<^verbatim>\<open>open(path, "w")\<close> empties or
  creates the file, \<^verbatim>\<open>json.dump\<close> writes the chunks of its encoder one after the other,
  and \<^verbatim>\<open>f.write("\n")\<close> ends the text. The disk is \<open>None\<close> (no file) or the text of
  the file; \<open>chunks\<close> is what the encoder yields for the object.
\<close>

datatype file_op = OpenTruncate | Write string

fun exec_op :: "file_op \<Rightarrow> string option \<Rightarrow> string option" where
  "exec_op OpenTruncate disk = Some []"
| "exec_op (Write s) disk = (case disk of None \<Rightarrow> None | Some t \<Rightarrow> Some (t @ s))"

definition write_json_ops :: "string list \<Rightarrow> file_op list" where
  "write_json_ops chunks = OpenTruncate # map Write chunks @ [Write [CHR 0x0A]]"

definition run_ops :: "file_op list \<Rightarrow> string option \<Rightarrow> string option" where
  "run_ops ops disk = fold exec_op ops disk"

text \<open>A run of \<^verbatim>\<open>write_json\<close> that stops after its first \<open>n\<close> operations.\<close>

definition write_json_interrupted :: "nat \<Rightarrow> string list \<Rightarrow> string option \<Rightarrow> string option" where
  "write_json_interrupted n chunks disk = run_ops (take n (write_json_ops chunks)) disk"

section \<open>ID Assigner and generation\<close>

text \<open>\<^verbatim>\<open>{"id": i, **entry}\<close>\<close>

definition new_record :: "nat \<Rightarrow> entry \<Rightarrow> (string \<times> json) list" where
  "new_record i entry =
     fold (\<lambda>(k, v) d. dict_set d k (JStr v)) entry [(''id'', JInt (int i))]"

definition new_data_of :: "entry list \<Rightarrow> json" where
  "new_data_of entries = JList (map (\<lambda>(i, entry). JObj (new_record i entry)) (enumerate 0 entries))"

datatype outcome = NoChanges | Wrote nat

text \<open>
  The block under \<^verbatim>\<open>if existing is not None\<close>: the keys of the existing document,
  then the validator, on strings when every existing key is one.
\<close>

definition validate_existing :: "json \<Rightarrow> string list \<Rightarrow> error + unit" where
  "validate_existing existing keys =
     (if existing \<noteq> JNull
      then (case py_getitem existing ''data'' of
              Inl e \<Rightarrow> Inl e
            | Inr data \<Rightarrow>
               (case py_iter data of
                  Inl e \<Rightarrow> Inl e
                | Inr items \<Rightarrow>
                   (case traverse (\<lambda>entry. py_getitem entry ''key'') items of
                      Inl e \<Rightarrow> Inl e
                    | Inr ks \<Rightarrow>
                       (case those (map as_str ks) of
                          None \<Rightarrow> validate_append_only_untyped ks keys
                        | Some existing_keys \<Rightarrow> validate_append_only existing_keys keys))))
      else Inr ())"

text \<open>\<^verbatim>\<open>existing is not None and existing.get("data") == new_data\<close>\<close>

definition unchanged :: "json \<Rightarrow> json \<Rightarrow> error + bool" where
  "unchanged existing new_data =
     (if existing \<noteq> JNull
      then (case py_get existing ''data'' of
              Inl e \<Rightarrow> Inl e
            | Inr data \<Rightarrow> Inr (py_eq data new_data))
      else Inr False)"

text \<open>The dictionary \<open>obj\<close> that \<^verbatim>\<open>generate_mapping\<close> hands to \<^verbatim>\<open>write_json\<close>.\<close>

definition mapping_document :: "string \<Rightarrow> string \<Rightarrow> json \<Rightarrow> json" where
  "mapping_document schema_ref now new_data =
     JObj [(''$schema'', JStr schema_ref), (''lastUpdated'', JStr now), (''data'', new_data)]"

text \<open>
  \<open>output_path\<close> is the state of the output file before the run and \<open>now\<close> the value of
  \<^verbatim>\<open>now_iso()\<close>; the result holds the state of the file after the run. Every failure
  happens before the write, so a failed run leaves the file as it was.
\<close>

definition generate_mapping ::
  "csv_file list \<Rightarrow> file_content option \<Rightarrow> string \<Rightarrow> string \<Rightarrow> error + (outcome \<times> file_content option)" where
  "generate_mapping source_dir output_path schema_ref now =
     (case read_csv_entries source_dir of
        Inl e \<Rightarrow> Inl e
      | Inr entries \<Rightarrow>
         if entries = [] then Inl EmptySourceError
         else (case traverse (\<lambda>e. getitem e ''key'') entries of
                 Inl e \<Rightarrow> Inl e
               | Inr keys \<Rightarrow>
                  (case read_existing_json output_path of
                     Inl e \<Rightarrow> Inl e
                   | Inr existing \<Rightarrow>
                      (case validate_existing existing keys of
                         Inl e \<Rightarrow> Inl e
                       | Inr u \<Rightarrow>
                          (let new_data = new_data_of entries in
                           case unchanged existing new_data of
                             Inl e \<Rightarrow> Inl e
                           | Inr True \<Rightarrow> Inr (NoChanges, output_path)
                           | Inr False \<Rightarrow>
                               Inr (Wrote (length entries),
                                    write_json (mapping_document schema_ref now new_data)))))))"

section \<open>Notions used to state the properties\<close>

text \<open>
  The names of a dictionary filled key by key, in the order the keys were first set:
  \<open>first_seen acc ks\<close> is \<open>acc\<close> followed by the elements of \<open>ks\<close> that are new, each
  once, in their order in \<open>ks\<close>.
\<close>

fun first_seen :: "'a list \<Rightarrow> 'a list \<Rightarrow> 'a list" where
  "first_seen acc [] = acc"
| "first_seen acc (k # ks) = first_seen (if k \<in> set acc then acc else acc @ [k]) ks"

text \<open>The non-empty trimmed keys of the data rows of a file, of a directory.\<close>

definition keys_of_rows :: "string list \<Rightarrow> string list list \<Rightarrow> string list" where
  "keys_of_rows fns raws =
     concat (map (\<lambda>raw. if raw = [] then []
                         else (case row_key fns raw of
                                 Inl e \<Rightarrow> []
                               | Inr key \<Rightarrow> if key = [] then [] else [key])) raws)"

definition data_keys :: "csv_file \<Rightarrow> string list" where
  "data_keys f = (case fieldnames f of None \<Rightarrow> [] | Some fns \<Rightarrow> keys_of_rows fns (rows f))"

definition all_keys :: "csv_file list \<Rightarrow> string list" where
  "all_keys source_dir = concat (map data_keys source_dir)"

text \<open>
  A file is well formed when its header has a \<open>key\<close> column and every row has a field
  for every header column that is not ignored: the columns the reader reads (rows
  without any field are passed over by the reader).
\<close>

definition has_field :: "(string \<times> string option) list \<Rightarrow> string \<Rightarrow> bool" where
  "has_field row col = (case map_of row col of Some (Some v) \<Rightarrow> True | _ \<Rightarrow> False)"

definition full_row :: "string list \<Rightarrow> string list \<Rightarrow> bool" where
  "full_row fns raw =
     (raw = [] \<or> list_all (has_field (DictReader_row fns raw)) (output_fields_of fns))"

definition well_formed :: "csv_file \<Rightarrow> bool" where
  "well_formed f =
     (case fieldnames f of
        None \<Rightarrow> False
      | Some fns \<Rightarrow> ''key'' \<in> set fns \<and> list_all (full_row fns) (rows f))"

text \<open>An entry that the reader builds from some row of some file of the directory.\<close>

definition entry_of :: "csv_file list \<Rightarrow> entry \<Rightarrow> bool" where
  "entry_of source_dir e =
     (\<exists>f\<in>set source_dir. \<exists>fns raw. fieldnames f = Some fns \<and> ''key'' \<in> set fns \<and>
        raw \<in> set (rows f) \<and>
        build_entry (DictReader_row fns raw) (output_fields_of fns) [] = Inr e)"

text \<open>The records of a data array.\<close>

definition records_of :: "json \<Rightarrow> json list" where
  "records_of data = (case data of JList xs \<Rightarrow> xs | _ \<Rightarrow> [])"

text \<open>
  No header column other than \<open>key\<close> has the trimmed name \<open>key\<close>, so that the \<open>key\<close>
  attribute of an entry is the key the reader checked.
\<close>

definition key_column_unique :: "csv_file \<Rightarrow> bool" where
  "key_column_unique f =
     (case fieldnames f of
        None \<Rightarrow> True
      | Some fns \<Rightarrow> list_all (\<lambda>c. strip c = ''key'' \<longrightarrow> c = ''key'') fns)"

text \<open>
  The data rows in reading order, each with the header of its file: the rows that have
  fields and a key that is not empty after trimming.
\<close>

definition data_rows_of :: "string list \<Rightarrow> string list list \<Rightarrow> string list list" where
  "data_rows_of fns raws =
     filter (\<lambda>raw. raw \<noteq> [] \<and> (case row_key fns raw of Inl e \<Rightarrow> False | Inr key \<Rightarrow> key \<noteq> [])) raws"

definition data_rows :: "csv_file list \<Rightarrow> (string list \<times> string list) list" where
  "data_rows fs =
     concat (map (\<lambda>f. case fieldnames f of
                          None \<Rightarrow> []
                        | Some fns \<Rightarrow> map (Pair fns) (data_rows_of fns (rows f))) fs)"

text \<open>
  A row carried through: the trimmed name and the trimmed value of every column that is
  not ignored, in header order. A record carried through: \<open>id\<close>, then the attributes of
  the entry as strings, in their order.
\<close>

definition carried_entry :: "string list \<Rightarrow> string list \<Rightarrow> entry" where
  "carried_entry fns raw =
     map (\<lambda>(c, v). (strip c, strip v)) (filter (\<lambda>(c, v). strip c \<notin> IGNORED_COLUMNS) (zip fns raw))"

definition carried_record :: "nat \<Rightarrow> entry \<Rightarrow> (string \<times> json) list" where
  "carried_record i e = (''id'', JInt (int i)) # map (\<lambda>(k, v). (k, JStr v)) e"

text \<open>A file without the rows whose key is empty after trimming.\<close>

definition drop_empty_key_rows :: "csv_file \<Rightarrow> csv_file" where
  "drop_empty_key_rows f =
     (case fieldnames f of
        None \<Rightarrow> f
      | Some fns \<Rightarrow> f\<lparr>rows := filter (\<lambda>raw. row_key fns raw \<noteq> Inr []) (rows f)\<rparr>)"

section \<open>Properties of the Append-Only Validator\<close>

lemma validate_append_only_self: "validate_append_only ks ks = Inr ()"
  by (simp add: validate_append_only_def)

lemma prefix_keys_subset: "take (length e) n = e \<Longrightarrow> set e \<subseteq> set n"
  by (metis set_take_subset)

text \<open>
  C1. For all ordered key lists \<open>existing_keys\<close> and \<open>new_keys\<close>, the validator accepts
  exactly when the first \<open>length existing_keys\<close> elements of \<open>new_keys\<close> are
  \<open>existing_keys\<close>, position for position. When some existing key occurs nowhere in
  \<open>new_keys\<close> it fails with \<open>RemovedKeyError\<close>; when every existing key occurs but that
  prefix differs it fails with \<open>ReorderedKeyError\<close>.
\<close>

theorem validate_append_only_decides:
  "((validate_append_only existing_keys new_keys = Inr ()) =
      (take (length existing_keys) new_keys = existing_keys))
   \<and> (\<not> set existing_keys \<subseteq> set new_keys \<longrightarrow>
        (\<exists>ms. validate_append_only existing_keys new_keys = Inl (RemovedKeyError ms)))
   \<and> (set existing_keys \<subseteq> set new_keys \<and> take (length existing_keys) new_keys \<noteq> existing_keys \<longrightarrow>
        validate_append_only existing_keys new_keys = Inl ReorderedKeyError)"
  using prefix_keys_subset[of existing_keys new_keys]
  by (auto simp: validate_append_only_def Let_def)

theorem validate_append_only_decides_witness:
  "validate_append_only [''a'', ''b'', ''c''] [''a'', ''b'', ''c'', ''d''] = Inr ()
   \<and> \<not> set [''a'', ''b'', ''c''] \<subseteq> set [''a'', ''c'']
   \<and> (\<exists>ms. validate_append_only [''a'', ''b'', ''c''] [''a'', ''c''] = Inl (RemovedKeyError ms))
   \<and> set [''a'', ''b'', ''c''] \<subseteq> set [''a'', ''c'', ''b'']
   \<and> take (length [''a'', ''b'', ''c'']) [''a'', ''c'', ''b''] \<noteq> [''a'', ''b'', ''c'']
   \<and> validate_append_only [''a'', ''b'', ''c''] [''a'', ''c'', ''b''] = Inl ReorderedKeyError"
  using validate_append_only_decides[of "[''a'', ''b'', ''c'']" "[''a'', ''b'', ''c'', ''d'']"]
    validate_append_only_decides[of "[''a'', ''b'', ''c'']" "[''a'', ''c'']"]
    validate_append_only_decides[of "[''a'', ''b'', ''c'']" "[''a'', ''c'', ''b'']"]
  by simp

text \<open>
  C7. Whenever the validator rejects with \<open>RemovedKeyError\<close>, the keys the error reports
  are all the existing keys that are absent from the new key list, each once, in sorted
  order: never only the first missing key.
\<close>

theorem removed_keys_reported_in_full:
  "validate_append_only existing_keys new_keys = Inl (RemovedKeyError ms) \<Longrightarrow>
     set ms = set existing_keys - set new_keys \<and> distinct ms \<and> sorted ms"
  by (auto simp: validate_append_only_def Let_def split: if_splits)

theorem removed_keys_reported_in_full_witness:
  "validate_append_only [''a'', ''d'', ''c'', ''b''] [''a'', ''c''] = Inl (RemovedKeyError [''b'', ''d''])
   \<and> set [''b'', ''d''] = set [''a'', ''d'', ''c'', ''b''] - set [''a'', ''c'']
   \<and> distinct [''b'', ''d''] \<and> sorted [''b'', ''d'']"
proof -
  have run: "validate_append_only [''a'', ''d'', ''c'', ''b''] [''a'', ''c''] = Inl (RemovedKeyError [''b'', ''d''])"
    by code_simp
  from removed_keys_reported_in_full[OF run] run show ?thesis
    by simp
qed

section \<open>Properties of the Mapping Writer\<close>

lemma run_ops_writes: "run_ops (map Write cs) (Some t) = Some (t @ concat cs)"
  unfolding run_ops_def by (induction cs arbitrary: t) simp_all

lemma write_json_ops_take:
  "0 < n \<Longrightarrow> take n (write_json_ops chunks) =
     OpenTruncate # map Write (take (n - 1) (chunks @ [[CHR 0x0A]]))"
proof -
  assume "0 < n"
  then obtain m where n: "n = Suc m" by (cases n) auto
  have "write_json_ops chunks = OpenTruncate # map Write (chunks @ [[CHR 0x0A]])"
    by (simp add: write_json_ops_def)
  then show ?thesis
    unfolding n by (simp only: take_Suc_Cons take_map diff_Suc_1)
qed

lemma interrupted_after_open:
  "0 < n \<Longrightarrow> write_json_interrupted n chunks disk =
     Some (concat (take (n - 1) (chunks @ [[CHR 0x0A]])))"
proof -
  assume n: "0 < n"
  have "run_ops (OpenTruncate # map Write cs) disk = Some (concat cs)" for cs
    using run_ops_writes[of cs "[]"] by (simp add: run_ops_def)
  then show ?thesis
    by (simp only: write_json_interrupted_def write_json_ops_take[OF n])
qed

lemma concat_take_prefix: "concat (take m xs) = take (length (concat (take m xs))) (concat xs)"
proof -
  have "concat xs = concat (take m xs) @ concat (drop m xs)"
    by (metis append_take_drop_id concat_append)
  then show ?thesis by simp
qed

text \<open>
  C4 as the specification states it fails: \<^verbatim>\<open>write_json\<close> opens the output file itself for
  writing, which empties it before a single character of the new document is written.
  A run that stops right after the \<^verbatim>\<open>open\<close> leaves neither the prior file nor the new
  document.
\<close>

theorem write_json_not_atomic_counterexample:
  "write_json_interrupted 1 [''{'', ''}''] (Some ''old'') = Some []
   \<and> write_json_interrupted 1 [''{'', ''}''] (Some ''old'') \<noteq> Some ''old''
   \<and> write_json_interrupted 1 [''{'', ''}''] (Some ''old'') \<noteq>
       run_ops (write_json_ops [''{'', ''}'']) (Some ''old'')"
  by (simp add: write_json_interrupted_def write_json_ops_def run_ops_def)

text \<open>
  C4, amended. A write that completes leaves exactly the new text (the encoder's chunks
  and a final newline), whatever the file held before. The file is written in place: a
  run that fails before it opens the file leaves the prior file intact, and a run that
  fails at any later point leaves a prefix of the new text, the prior content being gone.
\<close>

theorem write_json_in_place:
  "run_ops (write_json_ops chunks) disk = Some (concat chunks @ [CHR 0x0A])
   \<and> write_json_interrupted 0 chunks disk = disk
   \<and> (0 < n \<longrightarrow>
        (\<exists>k. write_json_interrupted n chunks disk = Some (take k (concat chunks @ [CHR 0x0A]))))"
proof -
  have full: "run_ops (write_json_ops chunks) disk = Some (concat chunks @ [CHR 0x0A])"
    using interrupted_after_open[of "Suc (Suc (length chunks))" chunks disk]
    by (simp add: write_json_interrupted_def write_json_ops_def)
  have zero: "write_json_interrupted 0 chunks disk = disk"
    by (simp add: write_json_interrupted_def run_ops_def)
  have part: "\<exists>k. write_json_interrupted n chunks disk = Some (take k (concat chunks @ [CHR 0x0A]))"
    if "0 < n"
    using interrupted_after_open[OF that, of chunks disk]
      concat_take_prefix[of "n - 1" "chunks @ [[CHR 0x0A]]"]
    by (metis append.right_neutral concat.simps(1) concat.simps(2) concat_append)
  from full zero part show ?thesis by blast
qed

theorem write_json_in_place_witness:
  "(0::nat) < 2
   \<and> write_json_interrupted 2 [''{'', ''}''] (Some ''old'') = Some ''{''
   \<and> (\<exists>k. write_json_interrupted 2 [''{'', ''}''] (Some ''old'') =
            Some (take k (concat [''{'', ''}''] @ [CHR 0x0A])))
   \<and> run_ops (write_json_ops [''{'', ''}'']) (Some ''old'') = Some [CHR ''{'', CHR ''}'', CHR 0x0A]"
  using write_json_in_place[of "[''{'', ''}'']" "Some ''old''" 2]
  by (simp add: write_json_interrupted_def write_json_ops_def run_ops_def)

section \<open>Properties of the Entry Reader\<close>

lemma map_of_dict_set: "map_of (dict_set d k v) = (map_of d)(k \<mapsto> v)"
  by (induction d k v rule: dict_set.induct) (auto simp: fun_eq_iff)

lemma keys_dict_set:
  "map fst (dict_set d k v) = (if k \<in> set (map fst d) then map fst d else map fst d @ [k])"
  by (induction d k v rule: dict_set.induct) (auto simp: rev_image_eqI)

lemma distinct_dict_set: "distinct (map fst d) \<Longrightarrow> distinct (map fst (dict_set d k v))"
  by (simp add: keys_dict_set)

lemma set_dict_set: "set (dict_set d k v) \<subseteq> insert (k, v) (set d)"
  by (induction d k v rule: dict_set.induct) auto

lemma build_entry_keys:
  "build_entry row cols acc = Inr e \<Longrightarrow> map fst e = first_seen (map fst acc) (map strip cols)"
proof (induction cols arbitrary: acc)
  case Nil
  then show ?case by simp
next
  case (Cons col cols)
  then show ?case
    by (auto simp: keys_dict_set split: sum.splits)
qed

lemma first_seen_distinct: "distinct acc \<Longrightarrow> distinct (first_seen acc ks)"
  by (induction ks arbitrary: acc) auto

lemma first_seen_set: "set (first_seen acc ks) = set acc \<union> set ks"
  by (induction ks arbitrary: acc) auto

lemma first_seen_id: "distinct (acc @ ks) \<Longrightarrow> first_seen acc ks = acc @ ks"
  by (induction ks arbitrary: acc) auto

lemma read_rows_skip:
  "read_rows fname fns ofs st (filter (\<lambda>raw. row_key fns raw \<noteq> Inr []) raws) =
   read_rows fname fns ofs st raws"
proof (induction raws arbitrary: st)
  case Nil
  then show ?case by simp
next
  case (Cons raw raws)
  show ?case
  proof (cases "row_key fns raw = Inr []")
    case True
    then have "process_row fname fns ofs st raw = Inr st"
      by (simp add: process_row_def)
    with True Cons show ?thesis by simp
  next
    case False
    with Cons show ?thesis by (simp split: sum.splits)
  qed
qed

lemma read_files_skip: "read_files st (map drop_empty_key_rows fs) = read_files st fs"
proof (induction fs arbitrary: st)
  case Nil
  then show ?case by simp
next
  case (Cons f fs)
  show ?case
  proof (cases "fieldnames f")
    case None
    then show ?thesis by (simp add: drop_empty_key_rows_def)
  next
    case (Some fns)
    then show ?thesis
      using Cons by (simp add: drop_empty_key_rows_def read_rows_skip split: sum.splits)
  qed
qed

lemma file_name_drop [simp]: "file_name (drop_empty_key_rows f) = file_name f"
  by (simp add: drop_empty_key_rows_def split: option.splits)


lemma insort_key_map_same:
  "(\<And>x. k (g x) = k x) \<Longrightarrow> insort_key k (g x) (map g ys) = map g (insort_key k x ys)"
  by (induction ys) auto

lemma sort_key_map_same:
  "(\<And>x. k (g x) = k x) \<Longrightarrow> sort_key k (map g xs) = map g (sort_key k xs)"
  by (induction xs) (simp_all add: insort_key_map_same)

lemma read_csv_entries_skip:
  "read_csv_entries (map drop_empty_key_rows d) = read_csv_entries d"
  by (simp add: read_csv_entries_def sort_key_map_same read_files_skip)

lemma keys_of_rows_Cons:
  "keys_of_rows fns (raw # raws) =
     (if raw = [] then []
      else (case row_key fns raw of Inl e \<Rightarrow> [] | Inr key \<Rightarrow> if key = [] then [] else [key]))
     @ keys_of_rows fns raws"
  by (simp add: keys_of_rows_def)

lemma keys_of_rows_Nil [simp]: "keys_of_rows fns [] = []"
  by (simp add: keys_of_rows_def)

lemma read_rows_seen:
  "read_rows fname fns ofs st raws = Inr st' \<Longrightarrow>
     snd st' = snd st \<union> set (keys_of_rows fns raws)
     \<and> distinct (keys_of_rows fns raws)
     \<and> set (keys_of_rows fns raws) \<inter> snd st = {}
     \<and> length (fst st') = length (fst st) + length (keys_of_rows fns raws)"
proof (induction raws arbitrary: st)
  case Nil
  then show ?case by simp
next
  case (Cons raw raws)
  show ?case
  proof (cases "raw = []")
    case True
    with Cons show ?thesis by (simp add: keys_of_rows_Cons)
  next
    case False
    from Cons.prems False obtain st1 where
      p: "process_row fname fns ofs st raw = Inr st1" and
      r: "read_rows fname fns ofs st1 raws = Inr st'"
      by (auto split: sum.splits)
    note ih = Cons.IH[OF r]
    from p obtain key where k: "row_key fns raw = Inr key"
      by (auto simp: process_row_def split: sum.splits)
    show ?thesis
    proof (cases "key = []")
      case True
      with p k have "st1 = st" by (simp add: process_row_def)
      with ih k True False show ?thesis by (simp add: keys_of_rows_Cons)
    next
      case nonempty: False
      with p k have notin: "key \<notin> snd st" and
        s1: "snd st1 = insert key (snd st)" and l1: "length (fst st1) = Suc (length (fst st))"
        by (auto simp: process_row_def split: sum.splits if_splits)
      with ih k nonempty False show ?thesis
        by (auto simp: keys_of_rows_Cons)
    qed
  qed
qed

lemma all_keys_Cons: "all_keys (f # fs) = data_keys f @ all_keys fs"
  by (simp add: all_keys_def)

lemma read_files_seen:
  "read_files st fs = Inr st' \<Longrightarrow>
     snd st' = snd st \<union> set (all_keys fs)
     \<and> distinct (all_keys fs)
     \<and> set (all_keys fs) \<inter> snd st = {}
     \<and> length (fst st') = length (fst st) + length (all_keys fs)"
proof (induction fs arbitrary: st)
  case Nil
  then show ?case by (simp add: all_keys_def)
next
  case (Cons f fs)
  from Cons.prems obtain fns st1 where
    h: "fieldnames f = Some fns" and
    r: "read_rows (file_name f) fns (output_fields_of fns) st (rows f) = Inr st1" and
    rest: "read_files st1 fs = Inr st'"
    by (auto split: option.splits if_splits sum.splits)
  from read_rows_seen[OF r] Cons.IH[OF rest] h show ?case
    by (auto simp: all_keys_Cons data_keys_def)
qed

lemma mset_concat_map_cong:
  "mset xs = mset ys \<Longrightarrow> mset (concat (map h xs)) = mset (concat (map h ys))"
proof -
  have "mset (concat (map h zs)) = sum_mset (image_mset (\<lambda>z. mset (h z)) (mset zs))" for zs
    by (induction zs) simp_all
  then show "mset xs = mset ys \<Longrightarrow> ?thesis" by simp
qed

lemma distinct_all_keys_sort:
  "distinct (all_keys (sort_key file_name d)) = distinct (all_keys d)"
  unfolding all_keys_def
  by (rule mset_eq_imp_distinct_iff) (rule mset_concat_map_cong, simp)

lemma duplicate_never_read:
  "\<not> distinct (all_keys d) \<Longrightarrow> \<exists>e. read_csv_entries d = Inl e"
proof -
  assume dup: "\<not> distinct (all_keys d)"
  show ?thesis
  proof (cases "read_csv_entries d")
    case (Inl e)
    then show ?thesis by blast
  next
    case (Inr entries)
    then obtain st where "read_files ([], {}) (sort_key file_name d) = Inr st"
      by (auto simp: read_csv_entries_def Let_def split: if_splits sum.splits)
    from read_files_seen[OF this] dup show ?thesis
      by (simp add: distinct_all_keys_sort)
  qed
qed

lemma fold_zip_lookup:
  "map_of (fold (\<lambda>(k, v) d. dict_set d k (Some v)) ps d) c =
     (case map_of (rev ps) c of None \<Rightarrow> map_of d c | Some v \<Rightarrow> Some (Some v))"
proof (induction ps arbitrary: d)
  case Nil
  then show ?case by simp
next
  case (Cons p ps)
  obtain k v where p: "p = (k, v)" by (cases p)
  show ?case
    by (simp add: p Cons map_of_dict_set map_add_def split: option.splits)
qed

lemma strip_key_word: "strip ''key'' = ''key''"
  by code_simp

lemma key_output_field: "''key'' \<in> set fns \<Longrightarrow> ''key'' \<in> set (output_fields_of fns)"
  by (simp add: output_fields_of_def IGNORED_COLUMNS_def strip_key_word)

lemma has_field_value: "has_field row col \<Longrightarrow> \<exists>v. map_of row col = Some (Some v)"
  by (auto simp: has_field_def split: option.splits)

lemma full_row_values:
  assumes "full_row fns raw" and "raw \<noteq> []" and "col \<in> set (output_fields_of fns)"
  shows "\<exists>v. map_of (DictReader_row fns raw) col = Some (Some v)"
proof -
  from assms have "has_field (DictReader_row fns raw) col"
    by (simp add: full_row_def list_all_iff)
  then show ?thesis by (rule has_field_value)
qed

lemma wide_row_full:
  assumes "length fns \<le> length raw"
  shows "full_row fns raw"
proof -
  have "has_field (DictReader_row fns raw) col" if "col \<in> set fns" for col
  proof -
    have "map fst (zip fns raw) = fns"
      using assms by (simp add: map_fst_zip_take)
    then have "col \<in> fst ` set (rev (zip fns raw))"
      using that by (metis set_map set_rev)
    then obtain v where "map_of (rev (zip fns raw)) col = Some v"
      by (metis map_of_eq_None_iff not_Some_eq)
    then show ?thesis
      using assms by (simp add: DictReader_row_def fold_zip_lookup has_field_def)
  qed
  then show ?thesis
    by (simp add: full_row_def list_all_iff output_fields_of_def)
qed

lemma build_entry_total:
  "(\<And>col. col \<in> set cols \<Longrightarrow> \<exists>v. map_of row col = Some (Some v)) \<Longrightarrow>
     \<exists>e. build_entry row cols acc = Inr e"
proof (induction cols arbitrary: acc)
  case Nil
  then show ?case by simp
next
  case (Cons col cols)
  from Cons.prems[of col] obtain v where "map_of row col = Some (Some v)" by auto
  moreover have "\<exists>e. build_entry row cols (dict_set acc (strip col) (strip v)) = Inr e"
    by (rule Cons.IH) (simp add: Cons.prems)
  ultimately show ?case by (simp add: getitem_def py_strip_def)
qed

lemma process_row_full:
  assumes "full_row fns raw" and "raw \<noteq> []" and "''key'' \<in> set fns"
    and "process_row fname fns (output_fields_of fns) st raw = Inl e"
  shows "\<exists>k. e = DuplicateKeyError k fname"
proof -
  from full_row_values[OF assms(1,2) key_output_field[OF assms(3)]] obtain v where
    "map_of (DictReader_row fns raw) ''key'' = Some (Some v)" by blast
  then have k: "row_key fns raw = Inr (strip v)"
    by (simp add: row_key_def getitem_def py_strip_def)
  have "\<exists>en. build_entry (DictReader_row fns raw) (output_fields_of fns) [] = Inr en"
    by (rule build_entry_total) (rule full_row_values[OF assms(1,2)])
  with assms(4) k show ?thesis
    by (auto simp: process_row_def split: if_splits)
qed

lemma read_rows_full:
  assumes "''key'' \<in> set fns"
  shows "list_all (full_row fns) raws \<Longrightarrow>
     read_rows fname fns (output_fields_of fns) st raws = Inl e \<Longrightarrow>
     \<exists>k. e = DuplicateKeyError k fname"
proof (induction raws arbitrary: st)
  case Nil
  then show ?case by simp
next
  case (Cons raw raws)
  show ?case
  proof (cases "raw = []")
    case True
    with Cons show ?thesis by simp
  next
    case False
    from Cons.prems(1) have fr: "full_row fns raw" and rest: "list_all (full_row fns) raws"
      by simp_all
    show ?thesis
    proof (cases "process_row fname fns (output_fields_of fns) st raw")
      case (Inl e')
      with Cons.prems(2) False have "e' = e" by simp
      with process_row_full[OF fr False assms] Inl show ?thesis by blast
    next
      case (Inr st1)
      with Cons.prems(2) False have "read_rows fname fns (output_fields_of fns) st1 raws = Inl e"
        by simp
      from Cons.IH[OF rest this] show ?thesis .
    qed
  qed
qed

lemma read_files_full:
  "list_all well_formed fs \<Longrightarrow> read_files st fs = Inl e \<Longrightarrow>
     \<exists>k f. e = DuplicateKeyError k f"
proof (induction fs arbitrary: st)
  case Nil
  then show ?case by simp
next
  case (Cons f fs)
  from Cons.prems(1) have wf: "well_formed f" and rest: "list_all well_formed fs"
    by simp_all
  from wf obtain fns where h: "fieldnames f = Some fns" and key: "''key'' \<in> set fns"
    and full: "list_all (full_row fns) (rows f)"
    by (auto simp: well_formed_def split: option.splits)
  show ?case
  proof (cases "read_rows (file_name f) fns (output_fields_of fns) st (rows f)")
    case (Inl e')
    with Cons.prems(2) h key have "e' = e" by simp
    with read_rows_full[OF key full] Inl show ?thesis by blast
  next
    case (Inr st1)
    with Cons.prems(2) h key have "read_files st1 fs = Inl e" by simp
    from Cons.IH[OF rest this] show ?thesis .
  qed
qed

lemma read_rows_append:
  "read_rows fname fns ofs st (pre @ post) =
     (case read_rows fname fns ofs st pre of
        Inl e \<Rightarrow> Inl e
      | Inr st' \<Rightarrow> read_rows fname fns ofs st' post)"
  by (induction pre arbitrary: st) (auto split: sum.splits)

lemma read_files_append:
  "read_files st (fs1 @ fs2) =
     (case read_files st fs1 of Inl e \<Rightarrow> Inl e | Inr st' \<Rightarrow> read_files st' fs2)"
  by (induction fs1 arbitrary: st) (auto split: sum.splits option.splits)

lemma reached_duplicate:
  assumes files: "read_files ([], {}) fs1 = Inr st1"
    and header: "fieldnames f = Some fns" "''key'' \<in> set fns"
    and rws: "rows f = pre @ raw # post"
    and before: "read_rows (file_name f) fns (output_fields_of fns) st1 pre = Inr st2"
    and row: "raw \<noteq> []" "row_key fns raw = Inr key" "key \<noteq> []"
    and seen: "key \<in> set (all_keys fs1) \<union> set (keys_of_rows fns pre)"
  shows "read_files ([], {}) (fs1 @ f # fs2) = Inl (DuplicateKeyError key (file_name f))"
proof -
  from read_files_seen[OF files] have s1: "snd st1 = set (all_keys fs1)" by simp
  from read_rows_seen[OF before] s1 have "snd st2 = set (all_keys fs1) \<union> set (keys_of_rows fns pre)"
    by simp
  with seen have "key \<in> snd st2" by simp
  with row have "process_row (file_name f) fns (output_fields_of fns) st2 raw =
      Inl (DuplicateKeyError key (file_name f))"
    by (simp add: process_row_def)
  with before row(1) have "read_rows (file_name f) fns (output_fields_of fns) st1 (rows f) =
      Inl (DuplicateKeyError key (file_name f))"
    by (simp add: rws read_rows_append)
  with files header show ?thesis
    by (simp add: read_files_append)
qed

lemma traverse_snoc:
  "traverse f xs = Inr ys \<Longrightarrow> f x = Inr y \<Longrightarrow> traverse f (xs @ [x]) = Inr (ys @ [y])"
  by (induction xs arbitrary: ys) (auto split: sum.splits)

lemma build_entry_key:
  assumes "build_entry row cols acc = Inr e"
    and "\<And>c. c \<in> set cols \<Longrightarrow> strip c = ''key'' \<Longrightarrow> c = ''key''"
    and "map_of row ''key'' = Some (Some v)"
  shows "map_of e ''key'' = (if ''key'' \<in> set cols then Some (strip v) else map_of acc ''key'')"
  using assms
proof (induction cols arbitrary: acc)
  case Nil
  then show ?case by simp
next
  case (Cons c cols)
  from Cons.prems(1) obtain x w where x: "getitem row c = Inr x" and w: "py_strip x = Inr w"
    and rest: "build_entry row cols (dict_set acc (strip c) w) = Inr e"
    by (auto split: sum.splits)
  have ih: "map_of e ''key'' =
      (if ''key'' \<in> set cols then Some (strip v) else map_of (dict_set acc (strip c) w) ''key'')"
    by (rule Cons.IH[OF rest _ Cons.prems(3)]) (simp add: Cons.prems(2))
  show ?case
  proof (cases "c = ''key''")
    case True
    with x w Cons.prems(3) have "w = strip v"
      by (auto simp: getitem_def py_strip_def)
    with ih True show ?thesis
      by (simp add: map_of_dict_set strip_key_word)
  next
    case False
    with Cons.prems(2)[of c] have "strip c \<noteq> ''key''" by auto
    with ih False show ?thesis
      by (auto simp: map_of_dict_set)
  qed
qed

lemma entry_key_is_row_key:
  assumes "build_entry (DictReader_row fns raw) (output_fields_of fns) [] = Inr e"
    and "list_all (\<lambda>c. strip c = ''key'' \<longrightarrow> c = ''key'') fns"
    and "''key'' \<in> set fns"
    and "row_key fns raw = Inr key"
  shows "getitem e ''key'' = Inr key"
proof -
  from assms(4) obtain v where v: "map_of (DictReader_row fns raw) ''key'' = Some (Some v)"
    and k: "key = strip v"
    by (auto simp: row_key_def getitem_def py_strip_def split: option.splits sum.splits)
  have "map_of e ''key'' =
      (if ''key'' \<in> set (output_fields_of fns) then Some (strip v) else map_of [] ''key'')"
    using assms(1)
  proof (rule build_entry_key)
    fix c assume "c \<in> set (output_fields_of fns)" "strip c = ''key''"
    with assms(2) show "c = ''key''"
      by (auto simp: output_fields_of_def list_all_iff)
  qed (rule v)
  with key_output_field[OF assms(3)] k show ?thesis
    by (simp add: getitem_def)
qed

lemma read_rows_keys:
  assumes "list_all (\<lambda>c. strip c = ''key'' \<longrightarrow> c = ''key'') fns" and "''key'' \<in> set fns"
  shows "read_rows fname fns (output_fields_of fns) st raws = Inr st' \<Longrightarrow>
     traverse (\<lambda>e. getitem e ''key'') (fst st) = Inr ks \<Longrightarrow>
     traverse (\<lambda>e. getitem e ''key'') (fst st') = Inr (ks @ keys_of_rows fns raws)"
proof (induction raws arbitrary: st ks)
  case Nil
  then show ?case by simp
next
  case (Cons raw raws)
  show ?case
  proof (cases "raw = []")
    case True
    with Cons show ?thesis by (simp add: keys_of_rows_Cons)
  next
    case False
    from Cons.prems(1) False obtain st1 where
      p: "process_row fname fns (output_fields_of fns) st raw = Inr st1" and
      r: "read_rows fname fns (output_fields_of fns) st1 raws = Inr st'"
      by (auto split: sum.splits)
    from p obtain key where k: "row_key fns raw = Inr key"
      by (auto simp: process_row_def split: sum.splits)
    show ?thesis
    proof (cases "key = []")
      case True
      with p k have "st1 = st" by (simp add: process_row_def)
      with Cons.IH[OF r, of ks] Cons.prems(2) k True False show ?thesis
        by (simp add: keys_of_rows_Cons)
    next
      case nonempty: False
      with p k obtain e where b: "build_entry (DictReader_row fns raw) (output_fields_of fns) [] = Inr e"
        and s1: "fst st1 = fst st @ [e]"
        by (auto simp: process_row_def split: sum.splits if_splits)
      from entry_key_is_row_key[OF b assms k] have "getitem e ''key'' = Inr key" .
      with Cons.prems(2) have "traverse (\<lambda>e. getitem e ''key'') (fst st1) = Inr (ks @ [key])"
        by (simp add: s1 traverse_snoc)
      from Cons.IH[OF r this] k nonempty False show ?thesis
        by (simp add: keys_of_rows_Cons)
    qed
  qed
qed

lemma read_files_keys:
  "list_all key_column_unique fs \<Longrightarrow> read_files st fs = Inr st' \<Longrightarrow>
     traverse (\<lambda>e. getitem e ''key'') (fst st) = Inr ks \<Longrightarrow>
     traverse (\<lambda>e. getitem e ''key'') (fst st') = Inr (ks @ all_keys fs)"
proof (induction fs arbitrary: st ks)
  case Nil
  then show ?case by (simp add: all_keys_def)
next
  case (Cons f fs)
  from Cons.prems(2) obtain fns st1 where
    h: "fieldnames f = Some fns" and key: "''key'' \<in> set fns" and
    r: "read_rows (file_name f) fns (output_fields_of fns) st (rows f) = Inr st1" and
    rest: "read_files st1 fs = Inr st'"
    by (auto split: option.splits if_splits sum.splits)
  from Cons.prems(1) have uf: "key_column_unique f" and us: "list_all key_column_unique fs"
    by simp_all
  from uf h have u: "list_all (\<lambda>c. strip c = ''key'' \<longrightarrow> c = ''key'') fns"
    by (simp add: key_column_unique_def)
  from read_rows_keys[OF u key r Cons.prems(3)]
  have "traverse (\<lambda>e. getitem e ''key'') (fst st1) = Inr (ks @ keys_of_rows fns (rows f))" .
  from Cons.IH[OF us rest this] h show ?case
    by (simp add: all_keys_Cons data_keys_def)
qed

lemma entries_keys:
  assumes "read_csv_entries source_dir = Inr entries" and "list_all key_column_unique source_dir"
  shows "traverse (\<lambda>e. getitem e ''key'') entries = Inr (all_keys (sort_key file_name source_dir))"
    and "distinct (all_keys (sort_key file_name source_dir))"
proof -
  from assms(1) obtain st where
    r: "read_files ([], {}) (sort_key file_name source_dir) = Inr st" and en: "entries = fst st"
    by (auto simp: read_csv_entries_def Let_def split: if_splits sum.splits)
  have u: "list_all key_column_unique (sort_key file_name source_dir)"
    using assms(2) by (simp add: list_all_iff)
  from read_files_keys[OF u r, of "[]"] en
  show "traverse (\<lambda>e. getitem e ''key'') entries = Inr (all_keys (sort_key file_name source_dir))"
    by simp
  from read_files_seen[OF r] show "distinct (all_keys (sort_key file_name source_dir))"
    by simp
qed

text \<open>
  C10. A data row whose key field is empty after trimming is passed over: the loop body
  returns the state (entries and seen keys) it was given, whatever the other fields
  hold. The reader gives the same result, entries or failure, on a directory as on the
  directory without its empty-key rows, so such rows never cause a
  \<open>DuplicateKeyError\<close>, however many there are.
\<close>

theorem empty_key_rows_skipped:
  "(row_key fns raw = Inr [] \<longrightarrow> process_row fname fns output_fields st raw = Inr st)
   \<and> read_csv_entries (map drop_empty_key_rows source_dir) = read_csv_entries source_dir"
  by (simp add: process_row_def read_csv_entries_skip)

theorem empty_key_rows_skipped_witness:
  "row_key [''key'', ''displayName''] [[CHR 0xA0, CHR '' ''], ''A''] = Inr []
   \<and> process_row ''a.csv'' [''key'', ''displayName''] [''key'', ''displayName'']
        ([[(''key'', ''x'')]], {''x''}) [[CHR 0xA0, CHR '' ''], ''A''] = Inr ([[(''key'', ''x'')]], {''x''})
   \<and> read_csv_entries
        [\<lparr>file_name = ''a.csv'', fieldnames = Some [''key'', ''displayName''],
          rows = [[''  '', ''A''], [''x'', ''X''], ['''', ''B''], [[CHR 0xA0], ''A''], [[CHR 0xA0]]]\<rparr>]
       = Inr [[(''key'', ''x''), (''displayName'', ''X'')]]"
proof -
  have k: "row_key [''key'', ''displayName''] [[CHR 0xA0, CHR '' ''], ''A''] = Inr []"
    by code_simp
  have r: "read_csv_entries
        [\<lparr>file_name = ''a.csv'', fieldnames = Some [''key'', ''displayName''],
          rows = [[''  '', ''A''], [''x'', ''X''], ['''', ''B''], [[CHR 0xA0], ''A''], [[CHR 0xA0]]]\<rparr>]
       = Inr [[(''key'', ''x''), (''displayName'', ''X'')]]"
    by code_simp
  from empty_key_rows_skipped[of "[''key'', ''displayName'']" "[[CHR 0xA0, CHR '' ''], ''A'']" "''a.csv''"
      "[''key'', ''displayName'']" "([[(''key'', ''x'')]], {''x''})" "[]"] k r
  show ?thesis by simp
qed

text \<open>
  C6 as stated fails: the reader stops at the first failure, and two kinds of failure
  can come before the second occurrence of a key. The header of every file is checked
  before its rows are read, so a file without a \<open>key\<close> column that sorts before the
  file holding the same key twice gives \<open>SchemaError\<close>; and a row that lacks the field
  of a column the reader reads raises \<open>AttributeError\<close> when it is read, here before the
  two rows with the same key.
\<close>

theorem duplicate_key_counterexample:
  "\<not> distinct (all_keys
        [\<lparr>file_name = ''a.csv'', fieldnames = Some [''name''], rows = [[''n'']]\<rparr>,
         \<lparr>file_name = ''b.csv'', fieldnames = Some [''key''], rows = [[''x''], [''x'']]\<rparr>])
   \<and> read_csv_entries
        [\<lparr>file_name = ''a.csv'', fieldnames = Some [''name''], rows = [[''n'']]\<rparr>,
         \<lparr>file_name = ''b.csv'', fieldnames = Some [''key''], rows = [[''x''], [''x'']]\<rparr>]
       = Inl (SchemaError ''a.csv'')
   \<and> \<not> distinct (all_keys
        [\<lparr>file_name = ''a.csv'', fieldnames = Some [''key'', ''displayName''],
          rows = [[''y''], [''x'', ''X''], [''x'', ''X'']]\<rparr>])
   \<and> read_csv_entries
        [\<lparr>file_name = ''a.csv'', fieldnames = Some [''key'', ''displayName''],
          rows = [[''y''], [''x'', ''X''], [''x'', ''X'']]\<rparr>]
       = Inl AttributeError"
  by code_simp

text \<open>
  C6, amended. The key of a data row is the trimmed field of the column headed \<open>key\<close>.
  A row whose non-empty key is already among the seen keys makes the loop body fail
  with \<open>DuplicateKeyError\<close>, whatever its other fields hold. The seen keys are those of
  all rows read so far, in this file and in the files read before it: whenever the
  files before a file and the rows before a row were read without failure and the key
  of the row occurs among them, the reader fails at that row with \<open>DuplicateKeyError\<close>
  for that key and that file. A directory in which the same non-empty key occurs in two
  data rows is never read successfully, and the failure is \<open>DuplicateKeyError\<close> when
  every file has a \<open>key\<close> column and every row has a field for each column that is not
  ignored. When the directory is read and no other header column has the trimmed name
  \<open>key\<close>, the \<open>key\<close> attributes of the entries are the keys of the data rows in reading
  order, all different.
\<close>

theorem duplicate_key_rejected:
  "(row_key fns raw = Inr key \<and> key \<noteq> [] \<and> key \<in> snd st \<longrightarrow>
      process_row fname fns output_fields st raw = Inl (DuplicateKeyError key fname))
   \<and> (sort_key file_name source_dir = fs1 @ f # fs2 \<and> read_files ([], {}) fs1 = Inr st1 \<and>
       fieldnames f = Some hdr \<and> ''key'' \<in> set hdr \<and> rows f = pre @ row # post \<and>
       read_rows (file_name f) hdr (output_fields_of hdr) st1 pre = Inr st2 \<and>
       row \<noteq> [] \<and> row_key hdr row = Inr k \<and> k \<noteq> [] \<and>
       k \<in> set (all_keys fs1) \<union> set (keys_of_rows hdr pre) \<longrightarrow>
         read_csv_entries source_dir = Inl (DuplicateKeyError k (file_name f)))
   \<and> (\<not> distinct (all_keys source_dir) \<longrightarrow> (\<exists>e. read_csv_entries source_dir = Inl e))
   \<and> (list_all well_formed source_dir \<and> \<not> distinct (all_keys source_dir) \<longrightarrow>
        (\<exists>k f. read_csv_entries source_dir = Inl (DuplicateKeyError k f)))
   \<and> (read_csv_entries source_dir = Inr entries \<and> list_all key_column_unique source_dir \<longrightarrow>
        traverse (\<lambda>e. getitem e ''key'') entries = Inr (all_keys (sort_key file_name source_dir))
        \<and> distinct (all_keys (sort_key file_name source_dir)))"
proof -
  have step: "process_row fname fns output_fields st raw = Inl (DuplicateKeyError key fname)"
    if "row_key fns raw = Inr key \<and> key \<noteq> [] \<and> key \<in> snd st"
    using that by (simp add: process_row_def)
  have reached: "read_csv_entries source_dir = Inl (DuplicateKeyError k (file_name f))"
    if h: "sort_key file_name source_dir = fs1 @ f # fs2 \<and> read_files ([], {}) fs1 = Inr st1 \<and>
       fieldnames f = Some hdr \<and> ''key'' \<in> set hdr \<and> rows f = pre @ row # post \<and>
       read_rows (file_name f) hdr (output_fields_of hdr) st1 pre = Inr st2 \<and>
       row \<noteq> [] \<and> row_key hdr row = Inr k \<and> k \<noteq> [] \<and>
       k \<in> set (all_keys fs1) \<union> set (keys_of_rows hdr pre)"
  proof -
    from h have a: "read_files ([], {}) fs1 = Inr st1" "fieldnames f = Some hdr" "''key'' \<in> set hdr"
      "rows f = pre @ row # post"
      "read_rows (file_name f) hdr (output_fields_of hdr) st1 pre = Inr st2"
      "row \<noteq> []" "row_key hdr row = Inr k" "k \<noteq> []"
      "k \<in> set (all_keys fs1) \<union> set (keys_of_rows hdr pre)"
      by simp_all
    have "read_files ([], {}) (fs1 @ f # fs2) = Inl (DuplicateKeyError k (file_name f))"
      by (rule reached_duplicate[OF a])
    with h show ?thesis
      by (simp add: read_csv_entries_def)
  qed
  have dup: "\<exists>k f. read_csv_entries source_dir = Inl (DuplicateKeyError k f)"
    if h: "list_all well_formed source_dir \<and> \<not> distinct (all_keys source_dir)"
  proof -
    from h have wf: "list_all well_formed source_dir" and nd: "\<not> distinct (all_keys source_dir)"
      by simp_all
    from duplicate_never_read[OF nd] obtain e where e: "read_csv_entries source_dir = Inl e"
      by blast
    have wfs: "list_all well_formed (sort_key file_name source_dir)"
      using wf by (simp add: list_all_iff)
    from nd have "source_dir \<noteq> []"
      by (auto simp: all_keys_def)
    then have "sort_key file_name source_dir \<noteq> []"
      by (metis length_0_conv length_sort)
    with e have "read_files ([], {}) (sort_key file_name source_dir) = Inl e"
      by (auto simp: read_csv_entries_def Let_def split: sum.splits if_splits)
    from read_files_full[OF wfs this] e show ?thesis by auto
  qed
  have keys: "traverse (\<lambda>e. getitem e ''key'') entries = Inr (all_keys (sort_key file_name source_dir))
        \<and> distinct (all_keys (sort_key file_name source_dir))"
    if h: "read_csv_entries source_dir = Inr entries \<and> list_all key_column_unique source_dir"
    using entries_keys[of source_dir entries] h by simp
  show ?thesis
    by (intro conjI; intro impI) (rule step reached duplicate_never_read dup keys; assumption)+
qed

theorem duplicate_key_rejected_witness:
  "row_key [''key'', ''displayName''] [[CHR 0xA0, CHR ''x''], ''Other''] = Inr ''x''
   \<and> process_row ''b.csv'' [''key'', ''displayName''] [''key'', ''displayName'']
        ([[(''key'', ''x''), (''displayName'', ''X'')]], {''x''}) [[CHR 0xA0, CHR ''x''], ''Other'']
       = Inl (DuplicateKeyError ''x'' ''b.csv'')
   \<and> sort_key file_name
        [\<lparr>file_name = ''b.csv'', fieldnames = Some [''key'', ''displayName'', ''comment''],
           rows = [[''w'', ''W''], [[CHR 0xA0, CHR ''x''], ''Other'']]\<rparr>,
         \<lparr>file_name = ''a.csv'', fieldnames = Some [''key'', ''displayName''], rows = [[''x'', ''X'']]\<rparr>]
       = [\<lparr>file_name = ''a.csv'', fieldnames = Some [''key'', ''displayName''], rows = [[''x'', ''X'']]\<rparr>]
         @ \<lparr>file_name = ''b.csv'', fieldnames = Some [''key'', ''displayName'', ''comment''],
              rows = [[''w'', ''W''], [[CHR 0xA0, CHR ''x''], ''Other'']]\<rparr> # []
   \<and> list_all well_formed
        [\<lparr>file_name = ''b.csv'', fieldnames = Some [''key'', ''displayName'', ''comment''],
           rows = [[''w'', ''W''], [[CHR 0xA0, CHR ''x''], ''Other'']]\<rparr>,
         \<lparr>file_name = ''a.csv'', fieldnames = Some [''key'', ''displayName''], rows = [[''x'', ''X'']]\<rparr>]
   \<and> \<not> distinct (all_keys
        [\<lparr>file_name = ''b.csv'', fieldnames = Some [''key'', ''displayName'', ''comment''],
           rows = [[''w'', ''W''], [[CHR 0xA0, CHR ''x''], ''Other'']]\<rparr>,
         \<lparr>file_name = ''a.csv'', fieldnames = Some [''key'', ''displayName''], rows = [[''x'', ''X'']]\<rparr>])
   \<and> read_csv_entries
        [\<lparr>file_name = ''b.csv'', fieldnames = Some [''key'', ''displayName'', ''comment''],
           rows = [[''w'', ''W''], [[CHR 0xA0, CHR ''x''], ''Other'']]\<rparr>,
         \<lparr>file_name = ''a.csv'', fieldnames = Some [''key'', ''displayName''], rows = [[''x'', ''X'']]\<rparr>]
       = Inl (DuplicateKeyError ''x'' ''b.csv'')
   \<and> list_all key_column_unique
        [\<lparr>file_name = ''a.csv'', fieldnames = Some [''key'', ''displayName''], rows = [[''x'', ''X''], [''y'', ''X'']]\<rparr>]
   \<and> traverse (\<lambda>e. getitem e ''key'')
        [[(''key'', ''x''), (''displayName'', ''X'')], [(''key'', ''y''), (''displayName'', ''X'')]]
       = Inr [''x'', ''y'']"
proof -
  let ?a = "\<lparr>file_name = ''a.csv'', fieldnames = Some [''key'', ''displayName''], rows = [[''x'', ''X'']]\<rparr>"
  let ?b = "\<lparr>file_name = ''b.csv'', fieldnames = Some [''key'', ''displayName'', ''comment''],
           rows = [[''w'', ''W''], [[CHR 0xA0, CHR ''x''], ''Other'']]\<rparr>"
  let ?hdr = "[''key'', ''displayName'', ''comment'']"
  let ?row = "[[CHR 0xA0, CHR ''x''], ''Other'']"
  let ?g = "[\<lparr>file_name = ''a.csv'', fieldnames = Some [''key'', ''displayName''], rows = [[''x'', ''X''], [''y'', ''X'']]\<rparr>]"
  let ?st1 = "([[(''key'', ''x''), (''displayName'', ''X'')]], {''x''})"
  let ?st2 = "([[(''key'', ''x''), (''displayName'', ''X'')], [(''key'', ''w''), (''displayName'', ''W'')]], {''w'', ''x''})"
  have k1: "row_key [''key'', ''displayName''] ?row = Inr ''x''" by code_simp
  have k1': "row_key [''key'', ''displayName''] ?row = Inr ''x'' \<and> ''x'' \<noteq> [] \<and> ''x'' \<in> snd ?st1"
    using k1 by simp
  have srt: "sort_key file_name [?b, ?a] = [?a] @ ?b # []" by code_simp
  have f1: "read_files ([], {}) [?a] = Inr ?st1" by code_simp
  have hd: "fieldnames ?b = Some ?hdr" by simp
  have kh: "''key'' \<in> set ?hdr" by simp
  have rw: "rows ?b = [[''w'', ''W'']] @ ?row # []" by simp
  have pre: "read_rows (file_name ?b) ?hdr (output_fields_of ?hdr) ?st1 [[''w'', ''W'']] = Inr ?st2"
    by code_simp
  have ne: "?row \<noteq> []" by simp
  have k2: "row_key ?hdr ?row = Inr ''x''" by code_simp
  have kn: "''x'' \<noteq> []" by simp
  have seen: "''x'' \<in> set (all_keys [?a]) \<union> set (keys_of_rows ?hdr [[''w'', ''W'']])" by code_simp
  have wf: "list_all well_formed [?b, ?a]" by code_simp
  have nd: "\<not> distinct (all_keys [?b, ?a])" by code_simp
  have rg: "read_csv_entries ?g = Inr [[(''key'', ''x''), (''displayName'', ''X'')], [(''key'', ''y''), (''displayName'', ''X'')]]"
    by code_simp
  have ku: "list_all key_column_unique ?g" by code_simp
  have ak: "all_keys (sort_key file_name ?g) = [''x'', ''y'']" by code_simp
  note t1 = duplicate_key_rejected[of "[''key'', ''displayName'']" ?row "''x''" ?st1 "''b.csv''" "[''key'', ''displayName'']"
      "[?b, ?a]" "[?a]" ?b "[]" ?st1 ?hdr "[[''w'', ''W'']]" ?row "[]" ?st2 "''x''" "[]"]
  note t2 = duplicate_key_rejected[of "[''key'', ''displayName'']" ?row "''x''" ?st1 "''b.csv''" "[''key'', ''displayName'']"
      ?g "[]" ?b "[]" ?st1 ?hdr "[]" ?row "[]" ?st2 "''x''"
      "[[(''key'', ''x''), (''displayName'', ''X'')], [(''key'', ''y''), (''displayName'', ''X'')]]"]
  from t1 k1' have p1: "process_row ''b.csv'' [''key'', ''displayName''] [''key'', ''displayName''] ?st1 ?row
       = Inl (DuplicateKeyError ''x'' ''b.csv'')"
    by blast
  from t1 srt f1 hd kh rw pre ne k2 kn seen
  have p2: "read_csv_entries [?b, ?a] = Inl (DuplicateKeyError ''x'' (file_name ?b))"
    by blast
  from t2 rg ku have p5: "traverse (\<lambda>e. getitem e ''key'')
        [[(''key'', ''x''), (''displayName'', ''X'')], [(''key'', ''y''), (''displayName'', ''X'')]]
       = Inr (all_keys (sort_key file_name ?g))"
    by blast
  from k1 p1 srt wf nd p2 ku p5 show ?thesis
    unfolding ak by (intro conjI) simp_all
qed

section \<open>Entries and their attributes\<close>

lemma fold_set_keys:
  "map fst (fold (\<lambda>(k, v) d. dict_set d k (f v)) e d0) = first_seen (map fst d0) (map fst e)"
proof (induction e arbitrary: d0)
  case Nil
  then show ?case by simp
next
  case (Cons p e)
  obtain k v where p: "p = (k, v)" by (cases p)
  show ?case
    by (simp add: p Cons keys_dict_set)
qed

lemma fold_set_lookup:
  "map_of (fold (\<lambda>(k, v) d. dict_set d k (f v)) ps d) c =
     (case map_of (rev ps) c of None \<Rightarrow> map_of d c | Some v \<Rightarrow> Some (f v))"
proof (induction ps arbitrary: d)
  case Nil
  then show ?case by simp
next
  case (Cons p ps)
  obtain k v where p: "p = (k, v)" by (cases p)
  show ?case
    by (simp add: p Cons map_of_dict_set map_add_def split: option.splits)
qed

lemma fold_set_values:
  "(k, x) \<in> set (fold (\<lambda>(k, v) d. dict_set d k (f v)) ps d) \<Longrightarrow>
     (k, x) \<in> set d \<or> (\<exists>v. (k, v) \<in> set ps \<and> x = f v)"
proof (induction ps arbitrary: d)
  case Nil
  then show ?case by simp
next
  case (Cons p ps)
  obtain k' v' where p: "p = (k', v')" by (cases p)
  from Cons.prems have "(k, x) \<in> set (fold (\<lambda>(k, v) d. dict_set d k (f v)) ps (dict_set d k' (f v')))"
    by (simp add: p)
  from Cons.IH[OF this] set_dict_set[of d k' "f v'"] show ?case
    by (auto simp: p)
qed

lemma read_rows_entries:
  assumes "read_rows fname fns ofs st raws = Inr st'"
    and "\<And>e. e \<in> set (fst st) \<Longrightarrow> P e"
    and "\<And>raw e. raw \<in> set raws \<Longrightarrow> build_entry (DictReader_row fns raw) ofs [] = Inr e \<Longrightarrow> P e"
  shows "\<forall>e\<in>set (fst st'). P e"
  using assms
proof (induction raws arbitrary: st)
  case Nil
  then show ?case by auto
next
  case (Cons raw raws)
  show ?case
  proof (cases "raw = []")
    case True
    with Cons.prems(1) have "read_rows fname fns ofs st raws = Inr st'" by simp
    then show ?thesis
      by (rule Cons.IH) (auto intro: Cons.prems)
  next
    case False
    with Cons.prems(1) obtain st1 where
      p: "process_row fname fns ofs st raw = Inr st1" and
      r: "read_rows fname fns ofs st1 raws = Inr st'"
      by (auto split: sum.splits)
    have "P e" if "e \<in> set (fst st1)" for e
      using p that Cons.prems(2) Cons.prems(3)[of raw]
      by (auto simp: process_row_def split: sum.splits if_splits)
    with r show ?thesis
      by (rule Cons.IH) (auto intro: Cons.prems)
  qed
qed

lemma read_files_entries:
  assumes "read_files st fs = Inr st'"
    and "\<And>e. e \<in> set (fst st) \<Longrightarrow> P e"
    and "\<And>f fns raw e. f \<in> set fs \<Longrightarrow> fieldnames f = Some fns \<Longrightarrow> ''key'' \<in> set fns \<Longrightarrow>
            raw \<in> set (rows f) \<Longrightarrow>
            build_entry (DictReader_row fns raw) (output_fields_of fns) [] = Inr e \<Longrightarrow> P e"
  shows "\<forall>e\<in>set (fst st'). P e"
  using assms
proof (induction fs arbitrary: st)
  case Nil
  then show ?case by auto
next
  case (Cons f fs)
  from Cons.prems(1) obtain fns st1 where
    h: "fieldnames f = Some fns" and key: "''key'' \<in> set fns" and
    r: "read_rows (file_name f) fns (output_fields_of fns) st (rows f) = Inr st1" and
    rest: "read_files st1 fs = Inr st'"
    by (auto split: option.splits if_splits sum.splits)
  have "\<forall>e\<in>set (fst st1). P e"
    using r Cons.prems(2)
  proof (rule read_rows_entries)
    fix raw e
    assume "raw \<in> set (rows f)"
      and "build_entry (DictReader_row fns raw) (output_fields_of fns) [] = Inr e"
    with h key show "P e"
      by (auto intro: Cons.prems(3)[of f])
  qed
  then have p1: "\<And>e. e \<in> set (fst st1) \<Longrightarrow> P e"
    by blast
  show ?case
    by (rule Cons.IH[OF rest p1]) (auto intro: Cons.prems(3))
qed

lemma read_csv_entries_entries:
  assumes "read_csv_entries source_dir = Inr entries" and "e \<in> set entries"
  shows "\<exists>f\<in>set source_dir. \<exists>fns raw. fieldnames f = Some fns \<and> ''key'' \<in> set fns \<and>
        raw \<in> set (rows f) \<and>
        build_entry (DictReader_row fns raw) (output_fields_of fns) [] = Inr e"
proof -
  from assms(1) obtain st where
    r: "read_files ([], {}) (sort_key file_name source_dir) = Inr st" and en: "entries = fst st"
    by (auto simp: read_csv_entries_def Let_def split: if_splits sum.splits)
  have "\<forall>e\<in>set (fst st). entry_of source_dir e"
    using r by (rule read_files_entries) (auto simp: entry_of_def)
  with assms(2) en show ?thesis by (auto simp: entry_of_def)
qed

lemma strip_key [simp]: "strip ''key'' = ''key''"
  by code_simp

lemma key_is_output_field: "''key'' \<in> set fns \<Longrightarrow> ''key'' \<in> set (map strip (output_fields_of fns))"
proof -
  assume "''key'' \<in> set fns"
  then have "''key'' \<in> set (output_fields_of fns)"
    by (simp add: output_fields_of_def IGNORED_COLUMNS_def)
  then show ?thesis
    by (metis image_eqI set_map strip_key)
qed

lemma comment_not_output_field: "''comment'' \<notin> set (map strip (output_fields_of fns))"
  by (auto simp: output_fields_of_def IGNORED_COLUMNS_def)

lemma entry_shape:
  assumes "read_csv_entries source_dir = Inr entries" and "e \<in> set entries"
  shows "distinct (map fst e)" and "''key'' \<in> set (map fst e)" and "''comment'' \<notin> set (map fst e)"
proof -
  from read_csv_entries_entries[OF assms] obtain fns raw where key: "''key'' \<in> set fns"
    and b: "build_entry (DictReader_row fns raw) (output_fields_of fns) [] = Inr e"
    by blast
  from build_entry_keys[OF b] have ks: "map fst e = first_seen [] (map strip (output_fields_of fns))"
    by simp
  show "distinct (map fst e)"
    by (simp add: ks first_seen_distinct)
  show "''key'' \<in> set (map fst e)"
    using key_is_output_field[OF key] by (simp only: ks first_seen_set) simp
  show "''comment'' \<notin> set (map fst e)"
    using comment_not_output_field[of fns] by (simp only: ks first_seen_set) simp
qed

lemma map_of_rev_distinct: "distinct (map fst e) \<Longrightarrow> map_of (rev e) = map_of e"
  by (rule map_of_inject_set[THEN iffD2]) (simp_all add: rev_map[symmetric])

lemma first_seen_filter:
  "filter P (first_seen acc ks) = first_seen (filter P acc) (filter P ks)"
  by (induction ks arbitrary: acc) auto

lemma first_seen_split:
  "first_seen acc ks = acc @ first_seen [] (filter (\<lambda>k. k \<notin> set acc) ks)"
proof (induction "length ks" arbitrary: acc ks rule: less_induct)
  case less
  show ?case
  proof (cases ks)
    case Nil
    then show ?thesis by simp
  next
    case (Cons k ks')
    show ?thesis
    proof (cases "k \<in> set acc")
      case True
      with Cons less[of ks' acc] show ?thesis by simp
    next
      case False
      have l: "length (filter (\<lambda>k. k \<notin> set acc) ks') < length ks"
        using Cons by (simp add: le_imp_less_Suc)
      have "first_seen acc ks = first_seen (acc @ [k]) ks'"
        using Cons False by simp
      also have "\<dots> = acc @ [k] @ first_seen [] (filter (\<lambda>x. x \<notin> set (acc @ [k])) ks')"
        using less[of ks' "acc @ [k]"] Cons by simp
      also have "filter (\<lambda>x. x \<notin> set (acc @ [k])) ks' =
          filter (\<lambda>x. x \<notin> set [k]) (filter (\<lambda>k. k \<notin> set acc) ks')"
        by (auto intro: filter_cong)
      also have "[k] @ first_seen [] \<dots> = first_seen [k] (filter (\<lambda>k. k \<notin> set acc) ks')"
        using less[OF l, of "[k]"] by simp
      also have "acc @ \<dots> = acc @ first_seen [] (filter (\<lambda>k. k \<notin> set acc) ks)"
        using Cons False by simp
      finally show ?thesis .
    qed
  qed
qed

lemma first_seen_twice: "first_seen acc (first_seen [] ks) = first_seen acc ks"
proof -
  have d: "distinct (first_seen [] (filter (\<lambda>k. k \<notin> set acc) ks))"
    by (simp add: first_seen_distinct)
  have "first_seen acc (first_seen [] ks) =
      acc @ first_seen [] (filter (\<lambda>k. k \<notin> set acc) (first_seen [] ks))"
    by (rule first_seen_split)
  also have "filter (\<lambda>k. k \<notin> set acc) (first_seen [] ks) =
      first_seen [] (filter (\<lambda>k. k \<notin> set acc) ks)"
    by (simp add: first_seen_filter)
  also have "first_seen [] \<dots> = first_seen [] (filter (\<lambda>k. k \<notin> set acc) ks)"
    using first_seen_id[of "[]" "first_seen [] (filter (\<lambda>k. k \<notin> set acc) ks)"] d by simp
  also have "acc @ \<dots> = first_seen acc ks"
    by (rule first_seen_split[symmetric])
  finally show ?thesis .
qed

lemma dict_set_new: "k \<notin> set (map fst d) \<Longrightarrow> dict_set d k v = d @ [(k, v)]"
  by (induction d k v rule: dict_set.induct) auto

lemma build_entry_distinct:
  "(\<And>c. c \<in> set cols \<Longrightarrow> map_of row c = Some (Some (val c))) \<Longrightarrow>
   distinct (map fst acc @ map strip cols) \<Longrightarrow>
   build_entry row cols acc = Inr (acc @ map (\<lambda>c. (strip c, strip (val c))) cols)"
proof (induction cols arbitrary: acc)
  case Nil
  then show ?case by simp
next
  case (Cons c cols)
  have row: "map_of row c = Some (Some (val c))" by (simp add: Cons.prems(1))
  have new: "strip c \<notin> set (map fst acc)" using Cons.prems(2) by auto
  have "build_entry row cols (acc @ [(strip c, strip (val c))]) =
      Inr ((acc @ [(strip c, strip (val c))]) @ map (\<lambda>c. (strip c, strip (val c))) cols)"
    by (rule Cons.IH) (use Cons.prems in auto)
  then show ?case
    by (simp add: getitem_def py_strip_def row dict_set_new[OF new])
qed

lemma zip_as_map:
  assumes "distinct fns" and "length fns \<le> length raw"
  shows "zip fns raw = map (\<lambda>c. (c, the (map_of (zip fns raw) c))) fns"
proof (rule nth_equalityI)
  show "length (zip fns raw) = length (map (\<lambda>c. (c, the (map_of (zip fns raw) c))) fns)"
    using assms(2) by simp
next
  fix i assume i: "i < length (zip fns raw)"
  then have "(fns ! i, raw ! i) \<in> set (zip fns raw)"
    by (metis nth_mem nth_zip length_zip min_less_iff_conj)
  moreover have "distinct (map fst (zip fns raw))"
    using assms by (simp add: map_fst_zip_take)
  ultimately have "map_of (zip fns raw) (fns ! i) = Some (raw ! i)"
    by simp
  with i show "zip fns raw ! i = map (\<lambda>c. (c, the (map_of (zip fns raw) c))) fns ! i"
    by simp
qed

lemma map_filter_pairs:
  "map (\<lambda>c. (h c, k (g c))) (filter P fns) =
     map (\<lambda>(c, v). (h c, k v)) (filter (\<lambda>(c, v). P c) (map (\<lambda>c. (c, g c)) fns))"
  by (induction fns) simp_all

section \<open>Records and Python equality\<close>

lemma traverse_total:
  "(\<And>x. x \<in> set xs \<Longrightarrow> \<exists>y. f x = Inr y) \<Longrightarrow> \<exists>ys. traverse f xs = Inr ys"
proof (induction xs)
  case Nil
  then show ?case by simp
next
  case (Cons x xs)
  from Cons.prems[of x] obtain y where "f x = Inr y" by auto
  moreover from Cons.IH Cons.prems obtain ys where "traverse f xs = Inr ys" by auto
  ultimately show ?case by simp
qed

lemma traverse_Inr:
  "traverse f xs = Inr ys \<Longrightarrow> list_all2 (\<lambda>x y. f x = Inr y) xs ys"
  by (induction xs arbitrary: ys) (auto split: sum.splits)

lemma new_record_keys: "map fst (new_record i e) = first_seen [''id''] (map fst e)"
  by (simp add: new_record_def fold_set_keys)

lemma new_record_distinct: "distinct (map fst (new_record i e))"
  by (simp add: new_record_keys first_seen_distinct)

lemma new_record_lookup:
  "map_of (new_record i e) c =
     (case map_of (rev e) c of
        None \<Rightarrow> if c = ''id'' then Some (JInt (int i)) else None
      | Some v \<Rightarrow> Some (JStr v))"
  by (simp add: new_record_def fold_set_lookup split: option.splits)

lemma new_record_id:
  "''id'' \<notin> set (map fst e) \<Longrightarrow> map_of (new_record i e) ''id'' = Some (JInt (int i))"
proof -
  assume "''id'' \<notin> set (map fst e)"
  then have "map_of (rev e) ''id'' = None"
    by (simp add: map_of_eq_None_iff)
  then show ?thesis by (simp add: new_record_lookup)
qed

lemma new_record_key:
  assumes "distinct (map fst e)" and "getitem e ''key'' = Inr k"
  shows "getitem (new_record i e) ''key'' = Inr (JStr k)"
proof -
  from assms(2) have "map_of e ''key'' = Some k"
    by (simp add: getitem_def split: option.splits)
  with assms(1) have "map_of (rev e) ''key'' = Some k"
    by (simp add: map_of_rev_distinct)
  then show ?thesis
    by (simp add: getitem_def new_record_lookup)
qed

lemma new_record_values:
  "(k, x) \<in> set (new_record i e) \<Longrightarrow> x = JInt (int i) \<or> (\<exists>v. x = JStr v)"
  using fold_set_values[of k x JStr e "[(''id'', JInt (int i))]"]
  by (auto simp: new_record_def)

lemma new_record_wf: "wf_json (JObj (new_record i e))"
proof -
  have "wf_json x" if "(k, x) \<in> set (new_record i e)" for k x
    using new_record_values[OF that] by auto
  then show ?thesis
    by (auto simp: new_record_distinct list_all_iff)
qed

lemma new_data_wf: "wf_json (new_data_of entries)"
  by (auto simp: new_data_of_def list_all_iff new_record_wf simp del: wf_json.simps(2))

lemma py_eq_refl: "wf_json j \<Longrightarrow> py_eq j j"
proof (induction j)
  case (JList xs)
  then show ?case
    by (auto simp: list_all2_same list_all_iff)
next
  case (JObj d)
  have "case map_of d k of None \<Rightarrow> False | Some w \<Rightarrow> py_eq v w" if kv: "(k, v) \<in> set d" for k v
  proof -
    from JObj.prems kv have m: "map_of d k = Some v" by simp
    from JObj.prems kv have "wf_json v" by (auto simp: list_all_iff)
    moreover have "v \<in> Basic_BNFs.snds (k, v)" by simp
    ultimately have "py_eq v v"
      using JObj.IH[OF kv] by blast
    with m show ?thesis by simp
  qed
  then show ?case by (auto simp: list_all_iff)
qed simp_all

lemma records_of_new_data:
  "i < length entries \<Longrightarrow> records_of (new_data_of entries) ! i = JObj (new_record i (entries ! i))"
  by (simp add: records_of_def new_data_of_def nth_enumerate_eq)

lemma strip_names [simp]: "strip ''displayName'' = ''displayName''" "strip ''comment'' = ''comment''"
  by code_simp+

section \<open>Properties of the generation\<close>

lemma record_keys:
  "traverse (\<lambda>e. getitem e ''key'') entries = Inr keys \<Longrightarrow>
   (\<And>e. e \<in> set entries \<Longrightarrow> distinct (map fst e)) \<Longrightarrow>
   traverse (\<lambda>entry. py_getitem entry ''key'')
     (map (\<lambda>(i, e). JObj (new_record i e)) (enumerate n entries)) = Inr (map JStr keys)"
proof (induction entries arbitrary: n keys)
  case Nil
  then show ?case by simp
next
  case (Cons e es)
  from Cons.prems(1) obtain k ks where k: "getitem e ''key'' = Inr k"
    and ks: "traverse (\<lambda>e. getitem e ''key'') es = Inr ks" and keys: "keys = k # ks"
    by (auto split: sum.splits)
  have "getitem (new_record n e) ''key'' = Inr (JStr k)"
    by (rule new_record_key[OF _ k]) (simp add: Cons.prems(2))
  moreover have "traverse (\<lambda>entry. py_getitem entry ''key'')
     (map (\<lambda>(i, e). JObj (new_record i e)) (enumerate (Suc n) es)) = Inr (map JStr ks)"
    by (rule Cons.IH[OF ks]) (simp add: Cons.prems(2))
  ultimately show ?case
    by (simp add: keys py_getitem_def)
qed

lemma str_keys_of_strings: "those (map (as_str \<circ> JStr) ks) = Some ks"
  by (induction ks) (simp_all add: as_str_def)

lemma entries_have_keys:
  assumes "read_csv_entries source_dir = Inr entries"
  shows "\<exists>keys. traverse (\<lambda>e. getitem e ''key'') entries = Inr keys"
proof (rule traverse_total)
  fix e assume "e \<in> set entries"
  from entry_shape(2)[OF assms this] obtain v where "map_of e ''key'' = Some v"
    by (metis map_of_eq_None_iff not_Some_eq set_map)
  then show "\<exists>y. getitem e ''key'' = Inr y"
    by (simp add: getitem_def)
qed

lemma document_data: "py_getitem (mapping_document s t nd) ''data'' = Inr nd"
  "py_get (mapping_document s t nd) ''data'' = Inr nd"
  "mapping_document s t nd \<noteq> JNull"
  by (simp_all add: mapping_document_def py_getitem_def py_get_def getitem_def)

lemma validate_own_document:
  assumes "traverse (\<lambda>e. getitem e ''key'') entries = Inr keys"
    and "\<And>e. e \<in> set entries \<Longrightarrow> distinct (map fst e)"
  shows "validate_existing (mapping_document s t (new_data_of entries)) keys = Inr ()"
  using record_keys[OF assms, of 0]
  by (simp add: validate_existing_def document_data new_data_of_def py_iter_def
      str_keys_of_strings validate_append_only_self)

lemma unchanged_own_document:
  "unchanged (mapping_document s t (new_data_of entries)) (new_data_of entries) = Inr True"
  by (simp add: unchanged_def document_data py_eq_refl new_data_wf)

lemma fresh_run:
  assumes "read_csv_entries source_dir = Inr entries" and "entries \<noteq> []"
  shows "generate_mapping source_dir None schema_ref now =
     Inr (Wrote (length entries),
          Some (Doc (mapping_document schema_ref now (new_data_of entries))))"
proof -
  from entries_have_keys[OF assms(1)] obtain keys where
    "traverse (\<lambda>e. getitem e ''key'') entries = Inr keys" by blast
  with assms show ?thesis
    by (simp add: generate_mapping_def read_existing_json_def validate_existing_def
        unchanged_def write_json_def)
qed

lemma skip_independent:
  assumes "generate_mapping source_dir fs s t = Inr (NoChanges, fs')"
  shows "fs' = fs \<and> generate_mapping source_dir fs s' t' = Inr (NoChanges, fs)"
  using assms
  by (auto simp: generate_mapping_def Let_def split: sum.splits if_splits bool.splits)

lemma wrote_result:
  assumes "generate_mapping source_dir fs s t = Inr (Wrote n, fs')"
  shows "\<exists>entries. read_csv_entries source_dir = Inr entries \<and> entries \<noteq> [] \<and> n = length entries \<and>
           fs' = Some (Doc (mapping_document s t (new_data_of entries)))"
  using assms
  by (auto simp: generate_mapping_def Let_def write_json_def split: sum.splits if_splits bool.splits)

lemma rerun_own_document:
  assumes "read_csv_entries source_dir = Inr entries" and "entries \<noteq> []"
  shows "generate_mapping source_dir (Some (Doc (mapping_document s t (new_data_of entries)))) s' t' =
     Inr (NoChanges, Some (Doc (mapping_document s t (new_data_of entries))))"
proof -
  from entries_have_keys[OF assms(1)] obtain keys where
    k: "traverse (\<lambda>e. getitem e ''key'') entries = Inr keys" by blast
  have d: "\<And>e. e \<in> set entries \<Longrightarrow> distinct (map fst e)"
    by (rule entry_shape(1)[OF assms(1)])
  from validate_own_document[OF k d, of s t] unchanged_own_document[of s t entries] assms k
  show ?thesis
    by (simp add: generate_mapping_def read_existing_json_def)
qed

text \<open>
  C3. When a run of the pipeline has ended normally (it wrote the document or found
  nothing to write), a second run on the same source tables and on the output file the
  first run left takes the \<open>NoChanges\<close> branch, whatever the clock shows, and leaves
  the output file exactly as the first run left it.
\<close>

theorem second_run_no_write:
  assumes "generate_mapping source_dir output_path schema_ref now = Inr (out, output_path')"
  shows "generate_mapping source_dir output_path' schema_ref now' = Inr (NoChanges, output_path')"
proof (cases out)
  case NoChanges
  with skip_independent[of source_dir output_path schema_ref now output_path'] assms
  show ?thesis by simp
next
  case (Wrote n)
  with wrote_result[of source_dir output_path schema_ref now n output_path'] assms
  obtain entries where "read_csv_entries source_dir = Inr entries" "entries \<noteq> []"
    "output_path' = Some (Doc (mapping_document schema_ref now (new_data_of entries)))"
    by auto
  with rerun_own_document[of source_dir entries schema_ref now] show ?thesis by simp
qed

theorem second_run_no_write_witness:
  "generate_mapping
     [\<lparr>file_name = ''a.csv'', fieldnames = Some [''key'', ''displayName'', ''comment''],
       rows = [[''x'', ''X'', ''note''], [''y'', ''Y'', '''']]\<rparr>] None ''s'' ''t1''
   = Inr (Wrote 2, Some (Doc (mapping_document ''s'' ''t1''
       (JList [JObj [(''id'', JInt 0), (''key'', JStr ''x''), (''displayName'', JStr ''X'')],
               JObj [(''id'', JInt 1), (''key'', JStr ''y''), (''displayName'', JStr ''Y'')]]))))
   \<and> generate_mapping
     [\<lparr>file_name = ''a.csv'', fieldnames = Some [''key'', ''displayName'', ''comment''],
       rows = [[''x'', ''X'', ''note''], [''y'', ''Y'', '''']]\<rparr>]
     (Some (Doc (mapping_document ''s'' ''t1''
       (JList [JObj [(''id'', JInt 0), (''key'', JStr ''x''), (''displayName'', JStr ''X'')],
               JObj [(''id'', JInt 1), (''key'', JStr ''y''), (''displayName'', JStr ''Y'')]]))))
     ''s'' ''t2''
   = Inr (NoChanges, Some (Doc (mapping_document ''s'' ''t1''
       (JList [JObj [(''id'', JInt 0), (''key'', JStr ''x''), (''displayName'', JStr ''X'')],
               JObj [(''id'', JInt 1), (''key'', JStr ''y''), (''displayName'', JStr ''Y'')]]))))"
proof -
  let ?d = "[\<lparr>file_name = ''a.csv'', fieldnames = Some [''key'', ''displayName'', ''comment''],
       rows = [[''x'', ''X'', ''note''], [''y'', ''Y'', '''']]\<rparr>]"
  let ?doc = "Some (Doc (mapping_document ''s'' ''t1''
       (JList [JObj [(''id'', JInt 0), (''key'', JStr ''x''), (''displayName'', JStr ''X'')],
               JObj [(''id'', JInt 1), (''key'', JStr ''y''), (''displayName'', JStr ''Y'')]])))"
  have first: "generate_mapping ?d None ''s'' ''t1'' = Inr (Wrote 2, ?doc)"
    by code_simp
  from second_run_no_write[OF first, of "''t2''"] first show ?thesis
    by (intro conjI)
qed


lemma py_eq_JStr: "py_eq v (JStr k) \<Longrightarrow> v = JStr k"
  by (cases v) auto

lemma py_eq_JObj:
  assumes "py_eq x (JObj r)" and "wf_json x" and "distinct (map fst r)"
  shows "\<exists>d. x = JObj d \<and> distinct (map fst d) \<and> set (map fst d) = set (map fst r) \<and>
           (\<forall>k v. (k, v) \<in> set d \<longrightarrow> (\<exists>w. map_of r k = Some w \<and> py_eq v w))"
proof -
  from assms(1) obtain d where x: "x = JObj d" by (cases x) auto
  from assms(1) x have len: "length d = length r"
    and vals: "\<And>k v. (k, v) \<in> set d \<Longrightarrow> \<exists>w. map_of r k = Some w \<and> py_eq v w"
    by (auto simp: list_all_iff split: option.splits)
  from assms(2) x have dd: "distinct (map fst d)" by simp
  have sub: "set (map fst d) \<subseteq> set (map fst r)"
  proof
    fix k assume "k \<in> set (map fst d)"
    then obtain v where "(k, v) \<in> set d" by auto
    from vals[OF this] obtain w where "map_of r k = Some w" by blast
    then show "k \<in> set (map fst r)"
      by (auto dest!: map_of_SomeD intro: rev_image_eqI)
  qed
  have "card (set (map fst d)) = card (set (map fst r))"
    using dd assms(3) len by (metis distinct_card length_map)
  with sub have "set (map fst d) = set (map fst r)"
    by (simp add: card_subset_eq)
  with x dd vals show ?thesis by blast
qed

lemma equal_record_key:
  assumes "py_eq x (JObj (new_record i e))" and "wf_json x"
    and "getitem (new_record i e) ''key'' = Inr (JStr k)"
  shows "py_getitem x ''key'' = Inr (JStr k)"
proof -
  from py_eq_JObj[OF assms(1,2) new_record_distinct] obtain d where x: "x = JObj d"
    and dd: "distinct (map fst d)"
    and ks: "set (map fst d) = set (map fst (new_record i e))"
    and vals: "\<And>k v. (k, v) \<in> set d \<Longrightarrow> \<exists>w. map_of (new_record i e) k = Some w \<and> py_eq v w"
    by blast
  from assms(3) have m: "map_of (new_record i e) ''key'' = Some (JStr k)"
    by (simp add: getitem_def split: option.splits)
  then have "''key'' \<in> set (map fst (new_record i e))"
    by (auto dest!: map_of_SomeD intro: rev_image_eqI)
  with ks have "''key'' \<in> fst ` set d" by simp
  then obtain v where kv: "(''key'', v) \<in> set d" by force
  from vals[OF kv] m have "py_eq v (JStr k)" by auto
  then have "v = JStr k" by (rule py_eq_JStr)
  with kv dd have "map_of d ''key'' = Some (JStr k)" by simp
  then show ?thesis by (simp add: x py_getitem_def getitem_def)
qed

lemma equal_data_keys:
  "list_all2 py_eq xs (map (\<lambda>(i, e). JObj (new_record i e)) (enumerate n entries)) \<Longrightarrow>
   list_all wf_json xs \<Longrightarrow>
   traverse (\<lambda>e. getitem e ''key'') entries = Inr keys \<Longrightarrow>
   (\<And>e. e \<in> set entries \<Longrightarrow> distinct (map fst e)) \<Longrightarrow>
   traverse (\<lambda>entry. py_getitem entry ''key'') xs = Inr (map JStr keys)"
proof (induction entries arbitrary: xs n keys)
  case Nil
  then show ?case by simp
next
  case (Cons e es)
  from Cons.prems(1) obtain y ys where xs: "xs = y # ys"
    and y: "py_eq y (JObj (new_record n e))"
    and ys: "list_all2 py_eq ys (map (\<lambda>(i, e). JObj (new_record i e)) (enumerate (Suc n) es))"
    by (auto simp: list_all2_Cons2)
  from Cons.prems(2) xs have wy: "wf_json y" and wys: "list_all wf_json ys" by simp_all
  from Cons.prems(3) obtain k ks where k: "getitem e ''key'' = Inr k"
    and ks: "traverse (\<lambda>e. getitem e ''key'') es = Inr ks" and keys: "keys = k # ks"
    by (auto split: sum.splits)
  have "getitem (new_record n e) ''key'' = Inr (JStr k)"
    by (rule new_record_key[OF _ k]) (simp add: Cons.prems(4))
  from equal_record_key[OF y wy this] have "py_getitem y ''key'' = Inr (JStr k)" .
  moreover have "traverse (\<lambda>entry. py_getitem entry ''key'') ys = Inr (map JStr ks)"
    by (rule Cons.IH[OF ys wys ks]) (simp add: Cons.prems(4))
  ultimately show ?case by (simp add: xs keys)
qed

text \<open>
  C9. The decision to skip the write looks at the \<open>data\<close> field of the existing
  document only. When the existing file holds a dictionary whose \<open>data\<close> equals the
  generated array (Python's \<^verbatim>\<open>==\<close>), the run ends with \<open>NoChanges\<close> for every schema
  reference and every clock value, and the file, with the \<^verbatim>\<open>$schema\<close> and
  \<^verbatim>\<open>lastUpdated\<close> it had, stays as it was.
\<close>

theorem skip_compares_data_only:
  assumes "read_csv_entries source_dir = Inr entries" and "entries \<noteq> []"
    and "wf_json (JObj doc)" and "map_of doc ''data'' = Some data"
    and "py_eq data (new_data_of entries)"
  shows "generate_mapping source_dir (Some (Doc (JObj doc))) schema_ref now =
           Inr (NoChanges, Some (Doc (JObj doc)))"
proof -
  from entries_have_keys[OF assms(1)] obtain keys where
    k: "traverse (\<lambda>e. getitem e ''key'') entries = Inr keys" by blast
  have d: "\<And>e. e \<in> set entries \<Longrightarrow> distinct (map fst e)"
    by (rule entry_shape(1)[OF assms(1)])
  from assms(5) obtain xs where data: "data = JList xs"
    and eq: "list_all2 py_eq xs (map (\<lambda>(i, e). JObj (new_record i e)) (enumerate 0 entries))"
    by (cases data) (auto simp: new_data_of_def)
  from assms(3,4) have "wf_json data"
    by (auto simp: list_all_iff dest: map_of_SomeD)
  with data have wxs: "list_all wf_json xs" by simp
  have g: "py_getitem (JObj doc) ''data'' = Inr (JList xs)"
    by (simp add: py_getitem_def getitem_def assms(4) data)
  from equal_data_keys[OF eq wxs k d]
  have "validate_existing (JObj doc) keys = Inr ()"
    by (simp add: validate_existing_def g py_iter_def
        str_keys_of_strings validate_append_only_self)
  moreover have "unchanged (JObj doc) (new_data_of entries) = Inr True"
    by (simp add: unchanged_def py_get_def assms(4,5))
  ultimately show ?thesis
    using assms(1,2) k by (simp add: generate_mapping_def read_existing_json_def)
qed

theorem skip_compares_data_only_witness:
  "generate_mapping
     [\<lparr>file_name = ''a.csv'', fieldnames = Some [''key''], rows = [[''x'']]\<rparr>]
     (Some (Doc (JObj [(''$schema'', JStr ''./old.schema.json''), (''lastUpdated'', JStr ''t0''),
                       (''data'', JList [JObj [(''key'', JStr ''x''), (''id'', JInt 0)]])])))
     ''./new.schema.json'' ''t1''
   = Inr (NoChanges,
       Some (Doc (JObj [(''$schema'', JStr ''./old.schema.json''), (''lastUpdated'', JStr ''t0''),
                       (''data'', JList [JObj [(''key'', JStr ''x''), (''id'', JInt 0)]])])))"
proof -
  let ?d = "[\<lparr>file_name = ''a.csv'', fieldnames = Some [''key''], rows = [[''x'']]\<rparr>]"
  let ?data = "JList [JObj [(''key'', JStr ''x''), (''id'', JInt 0)]]"
  let ?doc = "[(''$schema'', JStr ''./old.schema.json''), (''lastUpdated'', JStr ''t0''),
                       (''data'', ?data)]"
  have r: "read_csv_entries ?d = Inr [[(''key'', ''x'')]]" by code_simp
  have ne: "[[(''key'', ''x'')]] \<noteq> ([] :: entry list)" by simp
  have wf: "wf_json (JObj ?doc)" by code_simp
  have m: "map_of ?doc ''data'' = Some ?data" by code_simp
  have eq: "py_eq ?data (new_data_of [[(''key'', ''x'')]])" by code_simp
  show ?thesis
    by (rule skip_compares_data_only[OF r ne wf m eq])
qed

section \<open>What is read and what is written\<close>

lemma read_rows_built:
  "read_rows fname fns ofs st raws = Inr st' \<Longrightarrow>
     \<exists>es. fst st' = fst st @ es \<and>
          list_all2 (\<lambda>raw e. build_entry (DictReader_row fns raw) ofs [] = Inr e)
            (data_rows_of fns raws) es"
proof (induction raws arbitrary: st)
  case Nil
  then show ?case by (simp add: data_rows_of_def)
next
  case (Cons raw raws)
  show ?case
  proof (cases "raw = []")
    case True
    with Cons show ?thesis by (simp add: data_rows_of_def)
  next
    case False
    from Cons.prems False obtain st1 where
      p: "process_row fname fns ofs st raw = Inr st1" and
      r: "read_rows fname fns ofs st1 raws = Inr st'"
      by (auto split: sum.splits)
    from Cons.IH[OF r] obtain es where es: "fst st' = fst st1 @ es"
      and l: "list_all2 (\<lambda>raw e. build_entry (DictReader_row fns raw) ofs [] = Inr e)
            (data_rows_of fns raws) es"
      by blast
    from p obtain key where k: "row_key fns raw = Inr key"
      by (auto simp: process_row_def split: sum.splits)
    show ?thesis
    proof (cases "key = []")
      case True
      with p k have "st1 = st" by (simp add: process_row_def)
      with es l k True show ?thesis by (simp add: data_rows_of_def)
    next
      case nonempty: False
      with p k obtain e where b: "build_entry (DictReader_row fns raw) ofs [] = Inr e"
        and s1: "fst st1 = fst st @ [e]"
        by (auto simp: process_row_def split: sum.splits if_splits)
      have "data_rows_of fns (raw # raws) = raw # data_rows_of fns raws"
        using False k nonempty by (simp add: data_rows_of_def)
      with es l b s1 have "fst st' = fst st @ (e # es) \<and>
          list_all2 (\<lambda>raw e. build_entry (DictReader_row fns raw) ofs [] = Inr e)
            (data_rows_of fns (raw # raws)) (e # es)"
        by simp
      then show ?thesis by blast
    qed
  qed
qed

lemma data_rows_Cons:
  "data_rows (f # fs) =
     (case fieldnames f of None \<Rightarrow> [] | Some fns \<Rightarrow> map (Pair fns) (data_rows_of fns (rows f)))
     @ data_rows fs"
  by (simp add: data_rows_def)

lemma read_files_built:
  "read_files st fs = Inr st' \<Longrightarrow>
     \<exists>es. fst st' = fst st @ es \<and>
          list_all2 (\<lambda>(fns, raw) e. build_entry (DictReader_row fns raw) (output_fields_of fns) [] = Inr e)
            (data_rows fs) es"
proof (induction fs arbitrary: st)
  case Nil
  then show ?case by (simp add: data_rows_def)
next
  case (Cons f fs)
  from Cons.prems obtain fns st1 where
    h: "fieldnames f = Some fns" and
    r: "read_rows (file_name f) fns (output_fields_of fns) st (rows f) = Inr st1" and
    rest: "read_files st1 fs = Inr st'"
    by (auto split: option.splits if_splits sum.splits)
  from read_rows_built[OF r] obtain es1 where e1: "fst st1 = fst st @ es1"
    and l1: "list_all2 (\<lambda>raw e. build_entry (DictReader_row fns raw) (output_fields_of fns) [] = Inr e)
            (data_rows_of fns (rows f)) es1"
    by blast
  from Cons.IH[OF rest] obtain es2 where e2: "fst st' = fst st1 @ es2"
    and l2: "list_all2 (\<lambda>(fns, raw) e. build_entry (DictReader_row fns raw) (output_fields_of fns) [] = Inr e)
            (data_rows fs) es2"
    by blast
  from l1 have "list_all2 (\<lambda>(fns, raw) e. build_entry (DictReader_row fns raw) (output_fields_of fns) [] = Inr e)
            (map (Pair fns) (data_rows_of fns (rows f))) es1"
    by (simp add: list_all2_map1)
  with l2 have "list_all2 (\<lambda>(fns, raw) e. build_entry (DictReader_row fns raw) (output_fields_of fns) [] = Inr e)
            (data_rows (f # fs)) (es1 @ es2)"
    by (simp add: data_rows_Cons h list_all2_appendI)
  with e1 e2 show ?case by auto
qed

lemma entries_built:
  assumes "read_csv_entries source_dir = Inr entries"
  shows "list_all2 (\<lambda>(fns, raw) e. build_entry (DictReader_row fns raw) (output_fields_of fns) [] = Inr e)
            (data_rows (sort_key file_name source_dir)) entries"
proof -
  from assms obtain st where
    r: "read_files ([], {}) (sort_key file_name source_dir) = Inr st" and en: "entries = fst st"
    by (auto simp: read_csv_entries_def Let_def split: if_splits sum.splits)
  from read_files_built[OF r] en show ?thesis by auto
qed

lemma fold_pad_lookup:
  "map_of (fold (\<lambda>k d. dict_set d k None) ks d) c = (if c \<in> set ks then Some None else map_of d c)"
  by (induction ks arbitrary: d) (auto simp: map_of_dict_set)

lemma DictReader_row_lookup:
  "map_of (DictReader_row fns raw) c =
     (if c \<in> set (drop (length raw) fns) then Some None
      else (case map_of (rev (zip fns raw)) c of None \<Rightarrow> None | Some v \<Rightarrow> Some (Some v)))"
  by (simp add: DictReader_row_def fold_pad_lookup fold_set_lookup split: option.splits)

lemma build_entry_values:
  "build_entry row cols acc = Inr e \<Longrightarrow> c \<in> set cols \<Longrightarrow> \<exists>v. map_of row c = Some (Some v)"
proof (induction cols arbitrary: acc)
  case Nil
  then show ?case by simp
next
  case (Cons a cols)
  from Cons.prems(1) obtain x w where x: "getitem row a = Inr x" and w: "py_strip x = Inr w"
    and rest: "build_entry row cols (dict_set acc (strip a) w) = Inr e"
    by (auto split: sum.splits)
  show ?case
  proof (cases "c = a")
    case True
    with x w show ?thesis
      by (auto simp: getitem_def py_strip_def split: option.splits)
  next
    case False
    with Cons.prems(2) have "c \<in> set cols" by simp
    from Cons.IH[OF rest this] show ?thesis .
  qed
qed

lemma zip_take_left: "zip (take (length ys) xs) ys = zip xs ys"
proof (induction xs arbitrary: ys)
  case Nil
  then show ?case by simp
next
  case (Cons x xs)
  then show ?case by (cases ys) simp_all
qed

lemma built_entry_carried:
  assumes b: "build_entry (DictReader_row fns raw) (output_fields_of fns) [] = Inr e"
    and d: "distinct (map strip fns)"
  shows "e = carried_entry fns raw"
proof -
  let ?n = "length raw"
  let ?val = "\<lambda>c. the (map_of (zip fns raw) c)"
  let ?P = "\<lambda>c. strip c \<notin> IGNORED_COLUMNS"
  from d have df: "distinct fns" by (simp add: distinct_map)
  have dz: "distinct (map fst (zip fns raw))"
    using df by (simp add: map_fst_zip_take)
  have look: "map_of (DictReader_row fns raw) c = Some (Some (?val c)) \<and> c \<notin> set (drop ?n fns)"
    if c: "c \<in> set (output_fields_of fns)" for c
  proof -
    from build_entry_values[OF b c] obtain v where
      v: "map_of (DictReader_row fns raw) c = Some (Some v)" by blast
    then have nd: "c \<notin> set (drop ?n fns)"
      by (auto simp: DictReader_row_lookup split: if_splits)
    with v have "map_of (rev (zip fns raw)) c = Some v"
      by (auto simp: DictReader_row_lookup split: option.splits)
    then have "map_of (zip fns raw) c = Some v"
      by (simp add: map_of_rev_distinct[OF dz])
    with v nd show ?thesis by simp
  qed
  have dropped: "filter ?P (drop ?n fns) = []"
  proof -
    have "\<not> ?P c" if "c \<in> set (drop ?n fns)" for c
    proof
      assume "?P c"
      moreover from that have "c \<in> set fns" by (rule in_set_dropD)
      ultimately have "c \<in> set (output_fields_of fns)" by (simp add: output_fields_of_def)
      from look[OF this] that show False by simp
    qed
    then show ?thesis by (simp add: filter_empty_conv)
  qed
  have "filter ?P fns = filter ?P (take ?n fns @ drop ?n fns)"
    by simp
  then have "filter ?P fns = filter ?P (take ?n fns) @ filter ?P (drop ?n fns)"
    by (simp only: filter_append)
  with dropped have ofs: "output_fields_of fns = filter ?P (take ?n fns)"
    by (simp add: output_fields_of_def)
  have do: "distinct (map strip (output_fields_of fns))"
    unfolding output_fields_of_def by (rule distinct_map_filter[OF d])
  have "build_entry (DictReader_row fns raw) (output_fields_of fns) [] =
      Inr ([] @ map (\<lambda>c. (strip c, strip (?val c))) (output_fields_of fns))"
  proof (rule build_entry_distinct)
    show "distinct (map fst [] @ map strip (output_fields_of fns))"
      using do by simp
  qed (simp add: look)
  with b have e: "e = map (\<lambda>c. (strip c, strip (?val c))) (filter ?P (take ?n fns))"
    by (simp add: ofs)
  have z: "zip fns raw = zip (take ?n fns) raw"
    by (simp add: zip_take_left)
  have "zip (take ?n fns) raw = map (\<lambda>c. (c, the (map_of (zip (take ?n fns) raw) c))) (take ?n fns)"
    by (rule zip_as_map) (use df in simp_all)
  then have zm: "zip fns raw = map (\<lambda>c. (c, ?val c)) (take ?n fns)"
    by (simp add: zip_take_left)
  have "map (\<lambda>c. (strip c, strip (?val c))) (filter ?P (take ?n fns)) =
      map (\<lambda>(c, v). (strip c, strip v))
        (filter (\<lambda>(c, v). ?P c) (map (\<lambda>c. (c, ?val c)) (take ?n fns)))"
    by (rule map_filter_pairs)
  with e zm show ?thesis
    by (simp add: carried_entry_def)
qed

lemma fold_set_fresh:
  "distinct (map fst d0 @ map fst e) \<Longrightarrow>
     fold (\<lambda>(k, v) d. dict_set d k (f v)) e d0 = d0 @ map (\<lambda>(k, v). (k, f v)) e"
proof (induction e arbitrary: d0)
  case Nil
  then show ?case by simp
next
  case (Cons p e)
  obtain k v where p: "p = (k, v)" by (cases p)
  from Cons.prems p have new: "k \<notin> set (map fst d0)" by auto
  have "fold (\<lambda>(k, v) d. dict_set d k (f v)) e (d0 @ [(k, f v)]) =
      (d0 @ [(k, f v)]) @ map (\<lambda>(k, v). (k, f v)) e"
    by (rule Cons.IH) (use Cons.prems p in auto)
  then show ?case
    by (simp add: p dict_set_new[OF new])
qed

lemma new_record_carried:
  "distinct (map fst e) \<Longrightarrow> ''id'' \<notin> fst ` set e \<Longrightarrow> new_record i e = carried_record i e"
  using fold_set_fresh[of "[(''id'', JInt (int i))]" e JStr]
  by (simp add: new_record_def carried_record_def)

lemma data_rows_header:
  "(fns, raw) \<in> set (data_rows fs) \<Longrightarrow> \<exists>f\<in>set fs. fieldnames f = Some fns"
  by (auto simp: data_rows_def split: option.splits)

lemma key_displayName_comment_entry:
  assumes b: "build_entry (DictReader_row [''key'', ''displayName'', ''comment''] raw)
      (output_fields_of [''key'', ''displayName'', ''comment'']) [] = Inr e"
  shows "\<exists>k dn rest. raw = k # dn # rest \<and> e = [(''key'', strip k), (''displayName'', strip dn)]"
proof -
  let ?fns = "[''key'', ''displayName'', ''comment'']"
  have d: "distinct (map strip ?fns)" by simp
  from built_entry_carried[OF b d] have e: "e = carried_entry ?fns raw" .
  have "''displayName'' \<in> set (output_fields_of ?fns)"
    by (simp add: output_fields_of_def IGNORED_COLUMNS_def)
  from build_entry_values[OF b this] obtain v where
    v: "map_of (DictReader_row ?fns raw) ''displayName'' = Some (Some v)" by blast
  then have "''displayName'' \<notin> set (drop (length raw) ?fns)"
    by (auto simp: DictReader_row_lookup split: if_splits)
  then obtain k dn rest where raw: "raw = k # dn # rest"
    by (cases raw; cases "tl raw") auto
  have "carried_entry ?fns (k # dn # rest) = [(''key'', strip k), (''displayName'', strip dn)]"
    by (cases rest) (simp_all add: carried_entry_def IGNORED_COLUMNS_def)
  with e raw show ?thesis by simp
qed

text \<open>
  C8. When the reader returns entries, there is exactly one entry for each data row, in
  reading order. The entry is what the dictionary comprehension builds from the row: its
  attribute names are the trimmed names of the header columns that are not ignored, in
  header order, and when the trimmed header names are distinct the entry is the row
  carried through (trimmed name and trimmed value of each column that is not ignored).
  No entry and no record has a \<open>comment\<close> attribute. The record of an entry has \<open>id\<close>
  in front of the attribute names of the entry, every attribute of the entry as a
  string, and is the record carried through when the entry has no \<open>id\<close> attribute. A
  run that writes, writes one record per entry, in order. For a table with the columns
  \<open>key\<close>, \<open>displayName\<close>, \<open>comment\<close> each record is exactly \<open>id\<close> (its position),
  \<open>key\<close> and \<open>displayName\<close> with the trimmed first and second field of its row.
\<close>

theorem comment_never_in_output:
  assumes "read_csv_entries source_dir = Inr entries"
  shows "list_all2 (\<lambda>(fns, raw) e.
             build_entry (DictReader_row fns raw) (output_fields_of fns) [] = Inr e
             \<and> map fst e = first_seen [] (map strip (output_fields_of fns))
             \<and> (distinct (map strip fns) \<longrightarrow> e = carried_entry fns raw))
          (data_rows (sort_key file_name source_dir)) entries
     \<and> (\<forall>e\<in>set entries. ''comment'' \<notin> fst ` set e)
     \<and> (\<forall>i<length entries.
          ''comment'' \<notin> fst ` set (new_record i (entries ! i))
          \<and> map fst (new_record i (entries ! i)) = first_seen [''id''] (map fst (entries ! i))
          \<and> (\<forall>c. map_of (new_record i (entries ! i)) c =
                 (case map_of (entries ! i) c of
                    None \<Rightarrow> if c = ''id'' then Some (JInt (int i)) else None
                  | Some v \<Rightarrow> Some (JStr v)))
          \<and> (''id'' \<notin> fst ` set (entries ! i) \<longrightarrow>
                new_record i (entries ! i) = carried_record i (entries ! i)))
     \<and> (\<forall>output_path schema_ref now n output_path'.
          generate_mapping source_dir output_path schema_ref now = Inr (Wrote n, output_path') \<longrightarrow>
          n = length entries \<and>
          output_path' = Some (Doc (mapping_document schema_ref now
             (JList (map (\<lambda>(i, e). JObj (new_record i e)) (enumerate 0 entries))))))
     \<and> ((\<forall>f\<in>set source_dir. fieldnames f = Some [''key'', ''displayName'', ''comment'']) \<longrightarrow>
          (\<forall>i<length entries. \<exists>k dn rest.
              snd (data_rows (sort_key file_name source_dir) ! i) = k # dn # rest
              \<and> new_record i (entries ! i) =
                  [(''id'', JInt (int i)), (''key'', JStr (strip k)), (''displayName'', JStr (strip dn))]))"
proof -
  let ?rows = "data_rows (sort_key file_name source_dir)"
  note built = entries_built[OF assms]
  have p1: "list_all2 (\<lambda>(fns, raw) e.
             build_entry (DictReader_row fns raw) (output_fields_of fns) [] = Inr e
             \<and> map fst e = first_seen [] (map strip (output_fields_of fns))
             \<and> (distinct (map strip fns) \<longrightarrow> e = carried_entry fns raw)) ?rows entries"
    using built
  proof (rule list_all2_mono)
    fix x e
    assume x: "(case x of (fns, raw) \<Rightarrow> \<lambda>e.
        build_entry (DictReader_row fns raw) (output_fields_of fns) [] = Inr e) e"
    obtain fns raw where xx: "x = (fns, raw)" by (cases x)
    from x xx have b: "build_entry (DictReader_row fns raw) (output_fields_of fns) [] = Inr e"
      by simp
    from build_entry_keys[OF b] built_entry_carried[OF b] b xx
    show "(case x of (fns, raw) \<Rightarrow> \<lambda>e.
        build_entry (DictReader_row fns raw) (output_fields_of fns) [] = Inr e
        \<and> map fst e = first_seen [] (map strip (output_fields_of fns))
        \<and> (distinct (map strip fns) \<longrightarrow> e = carried_entry fns raw)) e"
      by simp
  qed
  have p2: "\<forall>e\<in>set entries. ''comment'' \<notin> fst ` set e"
    using entry_shape(3)[OF assms] by simp
  have p3: "''comment'' \<notin> fst ` set (new_record i (entries ! i))
          \<and> map fst (new_record i (entries ! i)) = first_seen [''id''] (map fst (entries ! i))
          \<and> (\<forall>c. map_of (new_record i (entries ! i)) c =
                 (case map_of (entries ! i) c of
                    None \<Rightarrow> if c = ''id'' then Some (JInt (int i)) else None
                  | Some v \<Rightarrow> Some (JStr v)))
          \<and> (''id'' \<notin> fst ` set (entries ! i) \<longrightarrow>
                new_record i (entries ! i) = carried_record i (entries ! i))"
    if i: "i < length entries" for i
  proof -
    from i have m: "entries ! i \<in> set entries" by simp
    have d: "distinct (map fst (entries ! i))" by (rule entry_shape(1)[OF assms m])
    have c: "''comment'' \<notin> set (map fst (entries ! i))" by (rule entry_shape(3)[OF assms m])
    have "set (map fst (new_record i (entries ! i))) = {''id''} \<union> set (map fst (entries ! i))"
      by (simp add: new_record_keys first_seen_set)
    with c have a1: "''comment'' \<notin> fst ` set (new_record i (entries ! i))"
      by simp
    have a3: "map_of (new_record i (entries ! i)) c =
                 (case map_of (entries ! i) c of
                    None \<Rightarrow> if c = ''id'' then Some (JInt (int i)) else None
                  | Some v \<Rightarrow> Some (JStr v))" for c
      by (simp add: new_record_lookup map_of_rev_distinct[OF d])
    have a4: "''id'' \<notin> fst ` set (entries ! i) \<longrightarrow>
                new_record i (entries ! i) = carried_record i (entries ! i)"
      using new_record_carried[OF d, of i] by simp
    show ?thesis
      by (intro conjI allI) (rule a1 new_record_keys a3 a4)+
  qed
  have p4: "n = length entries \<and> output_path' = Some (Doc (mapping_document schema_ref now
             (JList (map (\<lambda>(i, e). JObj (new_record i e)) (enumerate 0 entries)))))"
    if "generate_mapping source_dir output_path schema_ref now = Inr (Wrote n, output_path')"
    for output_path schema_ref now n output_path'
    using wrote_result[OF that] assms by (auto simp: new_data_of_def)
  have p5: "\<exists>k dn rest. snd (?rows ! i) = k # dn # rest
              \<and> new_record i (entries ! i) =
                  [(''id'', JInt (int i)), (''key'', JStr (strip k)), (''displayName'', JStr (strip dn))]"
    if all: "\<forall>f\<in>set source_dir. fieldnames f = Some [''key'', ''displayName'', ''comment'']"
      and i: "i < length entries" for i
  proof -
    from built i have li: "i < length ?rows" by (simp add: list_all2_lengthD)
    obtain fns raw where x: "?rows ! i = (fns, raw)" by (cases "?rows ! i")
    from list_all2_nthD[OF built li] x
    have b: "build_entry (DictReader_row fns raw) (output_fields_of fns) [] = Inr (entries ! i)"
      by simp
    from li x have "(fns, raw) \<in> set ?rows" by (metis nth_mem)
    from data_rows_header[OF this] all have fns: "fns = [''key'', ''displayName'', ''comment'']"
      by auto
    from key_displayName_comment_entry[OF b[unfolded fns]] obtain k dn rest where
      raw: "raw = k # dn # rest" and e: "entries ! i = [(''key'', strip k), (''displayName'', strip dn)]"
      by blast
    have "new_record i (entries ! i) = carried_record i (entries ! i)"
      by (rule new_record_carried) (simp_all add: e)
    with e raw x show ?thesis
      by (simp add: carried_record_def)
  qed
  show ?thesis
  proof (intro conjI)
    show "\<forall>i<length entries.
          ''comment'' \<notin> fst ` set (new_record i (entries ! i))
          \<and> map fst (new_record i (entries ! i)) = first_seen [''id''] (map fst (entries ! i))
          \<and> (\<forall>c. map_of (new_record i (entries ! i)) c =
                 (case map_of (entries ! i) c of
                    None \<Rightarrow> if c = ''id'' then Some (JInt (int i)) else None
                  | Some v \<Rightarrow> Some (JStr v)))
          \<and> (''id'' \<notin> fst ` set (entries ! i) \<longrightarrow>
                new_record i (entries ! i) = carried_record i (entries ! i))"
      by (intro allI impI) (rule p3)
    show "\<forall>output_path schema_ref now n output_path'.
          generate_mapping source_dir output_path schema_ref now = Inr (Wrote n, output_path') \<longrightarrow>
          n = length entries \<and>
          output_path' = Some (Doc (mapping_document schema_ref now
             (JList (map (\<lambda>(i, e). JObj (new_record i e)) (enumerate 0 entries)))))"
      by (intro allI impI) (rule p4)
    show "(\<forall>f\<in>set source_dir. fieldnames f = Some [''key'', ''displayName'', ''comment'']) \<longrightarrow>
          (\<forall>i<length entries. \<exists>k dn rest.
              snd (data_rows (sort_key file_name source_dir) ! i) = k # dn # rest
              \<and> new_record i (entries ! i) =
                  [(''id'', JInt (int i)), (''key'', JStr (strip k)), (''displayName'', JStr (strip dn))])"
      by (intro allI impI) (rule p5)
  qed (rule p1 p2)+
qed

theorem comment_never_in_output_witness:
  "read_csv_entries
     [\<lparr>file_name = ''a.csv'', fieldnames = Some [''key'', ''displayName'', ''comment''],
       rows = [[''x'', '' X '', ''note''], [], [''y'', ''Y'']]\<rparr>]
     = Inr [[(''key'', ''x''), (''displayName'', ''X'')], [(''key'', ''y''), (''displayName'', ''Y'')]]
   \<and> data_rows (sort_key file_name
     [\<lparr>file_name = ''a.csv'', fieldnames = Some [''key'', ''displayName'', ''comment''],
       rows = [[''x'', '' X '', ''note''], [], [''y'', ''Y'']]\<rparr>])
     = [([''key'', ''displayName'', ''comment''], [''x'', '' X '', ''note'']),
        ([''key'', ''displayName'', ''comment''], [''y'', ''Y''])]
   \<and> carried_entry [''key'', ''displayName'', ''comment''] [''x'', '' X '', ''note'']
       = [(''key'', ''x''), (''displayName'', ''X'')]
   \<and> new_record 1 [(''key'', ''y''), (''displayName'', ''Y'')]
       = [(''id'', JInt 1), (''key'', JStr ''y''), (''displayName'', JStr ''Y'')]
   \<and> ''comment'' \<notin> fst ` set (new_record 1 [(''key'', ''y''), (''displayName'', ''Y'')])
   \<and> generate_mapping
     [\<lparr>file_name = ''a.csv'', fieldnames = Some [''key'', ''displayName'', ''comment''],
       rows = [[''x'', '' X '', ''note''], [], [''y'', ''Y'']]\<rparr>] None ''s'' ''t''
     = Inr (Wrote 2, Some (Doc (mapping_document ''s'' ''t''
         (JList [JObj [(''id'', JInt 0), (''key'', JStr ''x''), (''displayName'', JStr ''X'')],
                 JObj [(''id'', JInt 1), (''key'', JStr ''y''), (''displayName'', JStr ''Y'')]]))))"
proof -
  let ?d = "[\<lparr>file_name = ''a.csv'', fieldnames = Some [''key'', ''displayName'', ''comment''],
       rows = [[''x'', '' X '', ''note''], [], [''y'', ''Y'']]\<rparr>]"
  let ?es = "[[(''key'', ''x''), (''displayName'', ''X'')], [(''key'', ''y''), (''displayName'', ''Y'')]]"
  have r: "read_csv_entries ?d = Inr ?es"
    by code_simp
  have rows: "data_rows (sort_key file_name ?d)
     = [([''key'', ''displayName'', ''comment''], [''x'', '' X '', ''note'']),
        ([''key'', ''displayName'', ''comment''], [''y'', ''Y''])]"
    by code_simp
  have ce: "carried_entry [''key'', ''displayName'', ''comment''] [''x'', '' X '', ''note'']
       = [(''key'', ''x''), (''displayName'', ''X'')]"
    by code_simp
  have g: "generate_mapping ?d None ''s'' ''t''
     = Inr (Wrote 2, Some (Doc (mapping_document ''s'' ''t''
         (JList [JObj [(''id'', JInt 0), (''key'', JStr ''x''), (''displayName'', JStr ''X'')],
                 JObj [(''id'', JInt 1), (''key'', JStr ''y''), (''displayName'', JStr ''Y'')]]))))"
    by code_simp
  note t = comment_never_in_output[OF r]
  have all: "\<forall>f\<in>set ?d. fieldnames f = Some [''key'', ''displayName'', ''comment'']"
    by simp
  from t have q: "\<forall>i<length ?es. \<exists>k dn rest.
              snd (data_rows (sort_key file_name ?d) ! i) = k # dn # rest
              \<and> new_record i (?es ! i) =
                  [(''id'', JInt (int i)), (''key'', JStr (strip k)), (''displayName'', JStr (strip dn))]"
    using all by blast
  have "\<exists>k dn rest. snd (data_rows (sort_key file_name ?d) ! 1) = k # dn # rest
              \<and> new_record 1 (?es ! 1) =
                  [(''id'', JInt (int 1)), (''key'', JStr (strip k)), (''displayName'', JStr (strip dn))]"
    by (rule q[rule_format, of 1]) simp
  then obtain k dn rest where
    a: "snd (data_rows (sort_key file_name ?d) ! 1) = k # dn # rest" and
    b: "new_record 1 (?es ! 1) =
          [(''id'', JInt (int 1)), (''key'', JStr (strip k)), (''displayName'', JStr (strip dn))]"
    by blast
  from a have kd: "k = ''y''" "dn = ''Y''"
    unfolding rows by simp_all
  have st: "strip ''y'' = ''y''" "strip ''Y'' = ''Y''"
    by code_simp+
  from b have nr: "new_record 1 [(''key'', ''y''), (''displayName'', ''Y'')]
       = [(''id'', JInt 1), (''key'', JStr ''y''), (''displayName'', JStr ''Y'')]"
    by (simp add: kd st)
  have nc: "''comment'' \<notin> fst ` set (new_record 1 [(''key'', ''y''), (''displayName'', ''Y'')])"
    unfolding nr by simp
  from r rows ce nr nc g show ?thesis
    by (intro conjI)
qed

section \<open>Properties of the ID Assigner\<close>

lemma traverse_length: "traverse f xs = Inr ys \<Longrightarrow> length ys = length xs"
  using traverse_Inr[of f xs ys] by (simp add: list_all2_lengthD)

lemma traverse_nth: "traverse f xs = Inr ys \<Longrightarrow> i < length xs \<Longrightarrow> f (xs ! i) = Inr (ys ! i)"
  using traverse_Inr[of f xs ys] by (auto dest: list_all2_nthD)

lemma those_as_str: "those (map as_str ks) = Some eks \<Longrightarrow> ks = map JStr eks"
proof (induction ks arbitrary: eks)
  case Nil
  then show ?case by simp
next
  case (Cons k ks)
  then show ?case
    by (cases k) (auto simp: as_str_def split: option.splits)
qed

lemma untyped_never_accepts: "validate_append_only_untyped ks keys \<noteq> Inr ()"
  by (simp add: validate_append_only_untyped_def Let_def split: sum.splits)

lemma accepted_existing:
  assumes "generate_mapping source_dir (Some (Doc existing)) schema_ref now = Inr (out, output_path')"
    and "read_csv_entries source_dir = Inr entries"
    and "py_getitem existing ''data'' = Inr (JList items)"
  shows "\<exists>keys. traverse (\<lambda>e. getitem e ''key'') entries = Inr keys \<and>
           length items \<le> length keys \<and>
           (\<forall>i<length items. py_getitem (items ! i) ''key'' = Inr (JStr (keys ! i)))"
proof -
  from assms(3) have nn: "existing \<noteq> JNull"
    by (auto simp: py_getitem_def)
  from assms(1,2) obtain keys where k: "traverse (\<lambda>e. getitem e ''key'') entries = Inr keys"
    and v: "validate_existing existing keys = Inr ()"
    by (auto simp: generate_mapping_def read_existing_json_def Let_def
        split: sum.splits if_splits)
  from v nn assms(3) obtain ks eks where
    ks: "traverse (\<lambda>entry. py_getitem entry ''key'') items = Inr ks" and
    eks: "those (map as_str ks) = Some eks" and
    ok: "validate_append_only eks keys = Inr ()"
    by (auto simp: validate_existing_def py_iter_def untyped_never_accepts
        split: sum.splits option.splits)
  from ok have pre: "take (length eks) keys = eks"
    by (auto simp: validate_append_only_def Let_def split: if_splits)
  have l1: "length ks = length items" by (rule traverse_length[OF ks])
  have kse: "ks = map JStr eks" by (rule those_as_str[OF eks])
  then have l2: "length eks = length ks" by simp
  have "length (take (length eks) keys) \<le> length keys" by simp
  with pre have le: "length eks \<le> length keys" by simp
  have "py_getitem (items ! i) ''key'' = Inr (JStr (keys ! i))" if i: "i < length items" for i
  proof -
    from kse i l1 have "ks ! i = JStr (eks ! i)" by simp
    moreover from pre i l1 l2 have "eks ! i = keys ! i"
      by (metis nth_take)
    ultimately show ?thesis using traverse_nth[OF ks i] by simp
  qed
  with k le l1 l2 show ?thesis by auto
qed

text \<open>
  What the ID Assigner does guarantee. When a run on an existing document is accepted,
  the document's records are at most as many as the new entries, the record generated
  at each position of the existing document has the key the existing record there has,
  and every generated record whose entry has no \<open>id\<close> attribute carries its position
  as \<open>id\<close>: existing keys keep their positions, new keys follow, and IDs count from 0.
\<close>

theorem accepted_regeneration_keeps_positions:
  assumes "generate_mapping source_dir (Some (Doc existing)) schema_ref now = Inr (out, output_path')"
    and "read_csv_entries source_dir = Inr entries"
    and "py_getitem existing ''data'' = Inr (JList items)"
  shows "length items \<le> length entries
     \<and> (\<forall>i<length items. \<exists>k. py_getitem (items ! i) ''key'' = Inr (JStr k) \<and>
            py_getitem (records_of (new_data_of entries) ! i) ''key'' = Inr (JStr k))
     \<and> (\<forall>i<length entries. ''id'' \<notin> set (map fst (entries ! i)) \<longrightarrow>
            py_getitem (records_of (new_data_of entries) ! i) ''id'' = Inr (JInt (int i)))"
proof -
  from accepted_existing[OF assms] obtain keys where
    k: "traverse (\<lambda>e. getitem e ''key'') entries = Inr keys" and
    le: "length items \<le> length keys" and
    same: "\<And>i. i < length items \<Longrightarrow> py_getitem (items ! i) ''key'' = Inr (JStr (keys ! i))"
    by blast
  have lk: "length keys = length entries" by (rule traverse_length[OF k])
  have key: "py_getitem (records_of (new_data_of entries) ! i) ''key'' = Inr (JStr (keys ! i))"
    if i: "i < length entries" for i
  proof -
    from i have "distinct (map fst (entries ! i))"
      using entry_shape(1)[OF assms(2)] by simp
    from new_record_key[OF this traverse_nth[OF k i]] i show ?thesis
      by (simp add: records_of_new_data py_getitem_def)
  qed
  have ident: "py_getitem (records_of (new_data_of entries) ! i) ''id'' = Inr (JInt (int i))"
    if i: "i < length entries" and no: "''id'' \<notin> set (map fst (entries ! i))" for i
    using new_record_id[OF no, of i] i
    by (simp add: records_of_new_data py_getitem_def getitem_def)
  from le lk same key ident show ?thesis by auto
qed

text \<open>
  With no prior document every non-empty entry list the reader returns is written
  without any validation, one record per entry in the order read, and every record
  whose entry has no \<open>id\<close> attribute carries its position as \<open>id\<close>.
\<close>

theorem fresh_initialisation_accepted:
  assumes "read_csv_entries source_dir = Inr entries" and "entries \<noteq> []"
  shows "generate_mapping source_dir None schema_ref now =
           Inr (Wrote (length entries),
                Some (Doc (mapping_document schema_ref now (new_data_of entries))))
     \<and> length (records_of (new_data_of entries)) = length entries
     \<and> (\<forall>i<length entries. ''id'' \<notin> set (map fst (entries ! i)) \<longrightarrow>
            py_getitem (records_of (new_data_of entries) ! i) ''id'' = Inr (JInt (int i)))"
proof -
  have ident: "py_getitem (records_of (new_data_of entries) ! i) ''id'' = Inr (JInt (int i))"
    if i: "i < length entries" and no: "''id'' \<notin> set (map fst (entries ! i))" for i
    using new_record_id[OF no, of i] i
    by (simp add: records_of_new_data py_getitem_def getitem_def)
  have "length (records_of (new_data_of entries)) = length entries"
    by (simp add: records_of_def new_data_of_def)
  with fresh_run[OF assms] ident show ?thesis by auto
qed


text \<open>
  C5 fails on the code for a source table with a column named \<open>id\<close>. The record is
  built as \<^verbatim>\<open>{"id": i, **entry}\<close>, so the \<open>id\<close> attribute of the entry replaces the
  assigned number: with no prior document, the table \<^verbatim>\<open>key,id\<close> / \<^verbatim>\<open>x,7\<close> yields
  a record whose \<open>id\<close> is the string \<open>7\<close>, not the number 0.
\<close>

theorem id_column_overrides_fresh_id: "generate_mapping
     [\<lparr>file_name = ''a.csv'', fieldnames = Some [''key'', ''id''], rows = [[''x'', ''7'']]\<rparr>]
     None ''s'' ''t'' =
   Inr (Wrote 1, Some (Doc (mapping_document ''s'' ''t''
          (JList [JObj [(''id'', JStr ''7''), (''key'', JStr ''x'')]]))))"
  by code_simp

text \<open>
  C2 fails on the code for the same reason. The prior document holds key \<open>a\<close> with
  ID 0; the table \<^verbatim>\<open>key,id\<close> / \<^verbatim>\<open>a,5\<close> / \<^verbatim>\<open>b,6\<close> passes the validator, and the
  regenerated document gives \<open>a\<close> the ID \<open>"5"\<close> and the new key \<open>b\<close> the ID
  \<open>"6"\<close> instead of 0 and 1.
\<close>

theorem id_column_overrides_existing_id: "generate_mapping
     [\<lparr>file_name = ''a.csv'', fieldnames = Some [''key'', ''id''], rows = [[''a'', ''5''], [''b'', ''6'']]\<rparr>]
     (Some (Doc (mapping_document ''s'' ''t0'' (JList [JObj [(''id'', JInt 0), (''key'', JStr ''a'')]]))))
     ''s'' ''t'' =
   Inr (Wrote 2, Some (Doc (mapping_document ''s'' ''t''
          (JList [JObj [(''id'', JStr ''5''), (''key'', JStr ''a'')],
                  JObj [(''id'', JStr ''6''), (''key'', JStr ''b'')]]))))"
  by code_simp

end
